theory Spec2Isabelle
  imports Complex_Main "HOL-Library.Multiset"
begin

section \<open>JavaScript strings and numbers\<close>

text \<open>
  A JavaScript string is a sequence of UTF-16 code units; a code unit is modelled by its
  number. \<open>js\<close> turns an ASCII literal into such a sequence; the currency signs outside
  ASCII are given by their code units.
\<close>

type_synonym jsstring = "nat list"

definition js :: "string \<Rightarrow> jsstring" where
  "js cs = map of_char cs"

definition euro :: nat where "euro = 8364"
definition pound :: nat where "pound = 163"
definition yen :: nat where "yen = 165"
definition won :: nat where "won = 8361"
definition comma :: nat where "comma = 44"
definition period :: nat where "period = 46"
definition dollar :: nat where "dollar = 36"

text \<open>
  The white space of \<open>String.prototype.trim\<close>, of the regular expression class
  \<open>\s\<close> and of \<open>StrWhiteSpaceChar\<close> (the three agree): TAB, LF, VT, FF, CR, SP, NBSP,
  U+1680, U+2000..U+200A, U+2028, U+2029, U+202F, U+205F, U+3000, U+FEFF.
\<close>

definition isWhiteSpace :: "nat \<Rightarrow> bool" where
  "isWhiteSpace c \<longleftrightarrow>
     c \<in> set [9, 10, 11, 12, 13, 32, 160, 5760, 8232, 8233, 8239, 8287, 12288, 65279]
     \<or> (8192 \<le> c \<and> c \<le> 8202)"

definition trim :: "jsstring \<Rightarrow> jsstring" where
  "trim s = rev (dropWhile isWhiteSpace (rev (dropWhile isWhiteSpace s)))"

text \<open>
  A JavaScript number is an IEEE double. A finite double is modelled by the rational it
  stands for, without the rounding of the mantissa and without the sign of zero; the three
  other values are constructors of their own. \<open>toDouble\<close> is the range behaviour of the
  rounding: a magnitude of at least \<open>2^1024 - 2^970\<close> rounds to an infinity, one of at
  most \<open>2^-1075\<close> rounds to zero.
\<close>

datatype jsnum = Finite rat | PosInfinity | NegInfinity | NaN

definition toDouble :: "rat \<Rightarrow> jsnum" where
  "toDouble q =
     (if 2 ^ 1024 - 2 ^ 970 \<le> q then PosInfinity
      else if q \<le> - (2 ^ 1024 - 2 ^ 970) then NegInfinity
      else if \<bar>q\<bar> \<le> 1 / 2 ^ 1075 then Finite 0
      else Finite q)"

fun isFinite :: "jsnum \<Rightarrow> bool" where
  "isFinite (Finite q) = True"
| "isFinite PosInfinity = False"
| "isFinite NegInfinity = False"
| "isFinite NaN = False"

fun num_neg :: "jsnum \<Rightarrow> jsnum" where
  "num_neg (Finite q) = Finite (- q)"
| "num_neg PosInfinity = NegInfinity"
| "num_neg NegInfinity = PosInfinity"
| "num_neg NaN = NaN"

text \<open>\<open>x > 0\<close> on numbers: false for NaN.\<close>

fun num_pos :: "jsnum \<Rightarrow> bool" where
  "num_pos (Finite q) = (0 < q)"
| "num_pos PosInfinity = True"
| "num_pos NegInfinity = False"
| "num_pos NaN = False"

text \<open>Truthiness of a number: every number but zero and NaN.\<close>

fun num_truthy :: "jsnum \<Rightarrow> bool" where
  "num_truthy (Finite q) = (q \<noteq> 0)"
| "num_truthy PosInfinity = True"
| "num_truthy NegInfinity = True"
| "num_truthy NaN = False"

text \<open>\<open>1 / x\<close>. The zero of the model is the positive one.\<close>

fun num_recip :: "jsnum \<Rightarrow> jsnum" where
  "num_recip (Finite q) = (if q = 0 then PosInfinity else toDouble (1 / q))"
| "num_recip PosInfinity = Finite 0"
| "num_recip NegInfinity = Finite 0"
| "num_recip NaN = NaN"

text \<open>\<open>x * y\<close>.\<close>

fun num_sgn :: "jsnum \<Rightarrow> rat" where
  "num_sgn (Finite q) = sgn q"
| "num_sgn PosInfinity = 1"
| "num_sgn NegInfinity = - 1"
| "num_sgn NaN = 0"

fun num_mul :: "jsnum \<Rightarrow> jsnum \<Rightarrow> jsnum" where
  "num_mul NaN y = NaN"
| "num_mul x NaN = NaN"
| "num_mul (Finite a) (Finite b) = toDouble (a * b)"
| "num_mul x y =
     (if num_sgn x * num_sgn y = 0 then NaN
      else if 0 < num_sgn x * num_sgn y then PosInfinity else NegInfinity)"

subsection \<open>\<open>Number(string)\<close>\<close>

text \<open>
  The grammar \<open>StringNumericLiteral\<close> of ECMAScript: optional white space around a
  signed decimal literal (digits, a fraction, an exponent, or \<open>Infinity\<close>) or an unsigned
  binary, octal or hexadecimal integer literal; the empty string is 0, anything else NaN.
\<close>

definition isDigit :: "nat \<Rightarrow> bool" where
  "isDigit c \<longleftrightarrow> 48 \<le> c \<and> c \<le> 57"

definition hexVal :: "nat \<Rightarrow> nat" where
  "hexVal c =
     (if 48 \<le> c \<and> c \<le> 57 then c - 48
      else if 97 \<le> c \<and> c \<le> 102 then c - 87
      else if 65 \<le> c \<and> c \<le> 70 then c - 55
      else 16)"

definition radixVal :: "nat \<Rightarrow> jsstring \<Rightarrow> nat option" where
  "radixVal b ds =
     (if ds \<noteq> [] \<and> list_all (\<lambda>c. hexVal c < b) ds
      then Some (foldl (\<lambda>a c. b * a + hexVal c) 0 ds) else None)"

definition NonDecimalIntegerLiteral :: "jsstring \<Rightarrow> nat option" where
  "NonDecimalIntegerLiteral t =
     (case t of
        z # x # ds \<Rightarrow>
          if z \<noteq> 48 then None
          else if x = 120 \<or> x = 88 then radixVal 16 ds
          else if x = 111 \<or> x = 79 then radixVal 8 ds
          else if x = 98 \<or> x = 66 then radixVal 2 ds
          else None
      | _ \<Rightarrow> None)"

definition SignedInteger :: "jsstring \<Rightarrow> int option" where
  "SignedInteger t =
     (case t of
        [] \<Rightarrow> None
      | c # r \<Rightarrow>
          if c = 43 then (if r \<noteq> [] \<and> list_all isDigit r
                          then Some (int (foldl (\<lambda>a d. 10 * a + (d - 48)) 0 r)) else None)
          else if c = 45 then (if r \<noteq> [] \<and> list_all isDigit r
                          then Some (- int (foldl (\<lambda>a d. 10 * a + (d - 48)) 0 r)) else None)
          else (if list_all isDigit t
                then Some (int (foldl (\<lambda>a d. 10 * a + (d - 48)) 0 t)) else None))"

text \<open>The optional exponent part: absent it is 0; \<open>None\<close> is a syntax error.\<close>

definition ExponentPart :: "jsstring \<Rightarrow> int option" where
  "ExponentPart t =
     (case t of
        [] \<Rightarrow> Some 0
      | c # r \<Rightarrow> if c = 101 \<or> c = 69 then SignedInteger r else None)"

definition scale10 :: "nat \<Rightarrow> int \<Rightarrow> rat" where
  "scale10 m e = (if 0 \<le> e then of_nat m * 10 ^ nat e else of_nat m / 10 ^ nat (- e))"

definition StrUnsignedDecimalLiteral :: "jsstring \<Rightarrow> jsnum" where
  "StrUnsignedDecimalLiteral t =
     (if t = js ''Infinity'' then PosInfinity
      else
        let ip = takeWhile isDigit t;
            r1 = dropWhile isDigit t;
            fp = (case r1 of [] \<Rightarrow> []
                  | c # r \<Rightarrow> if c = period then takeWhile isDigit r else []);
            r2 = (case r1 of [] \<Rightarrow> []
                  | c # r \<Rightarrow> if c = period then dropWhile isDigit r else r1)
        in if ip = [] \<and> fp = [] then NaN
           else case ExponentPart r2 of
                  None \<Rightarrow> NaN
                | Some e \<Rightarrow>
                    toDouble (scale10 (foldl (\<lambda>a d. 10 * a + (d - 48)) 0 (ip @ fp))
                                      (e - int (length fp))))"

definition Number :: "jsstring \<Rightarrow> jsnum" where
  "Number s =
     (let t = trim s
      in case t of
           [] \<Rightarrow> Finite 0
         | c # r \<Rightarrow>
             (case NonDecimalIntegerLiteral t of
                Some n \<Rightarrow> toDouble (of_nat n)
              | None \<Rightarrow>
                  if c = 43 then StrUnsignedDecimalLiteral r
                  else if c = 45 then num_neg (StrUnsignedDecimalLiteral r)
                  else StrUnsignedDecimalLiteral t))"

section \<open>Money parsing (src/lib/pricing.ts)\<close>

datatype Currency = USD | EUR

datatype DisplayCurrency = NATIVE | Cur Currency

text \<open>The characters of the class \<open>[\s,$\<dots>]\<close> that the first \<open>replace\<close> deletes.\<close>

definition isStripped :: "nat \<Rightarrow> bool" where
  "isStripped c \<longleftrightarrow>
     isWhiteSpace c \<or> c = comma \<or> c = dollar \<or> c = euro \<or> c = pound \<or> c = yen \<or> c = won"

text \<open>\<open>s.replace(a, b)\<close> with a string pattern replaces the first occurrence only.\<close>

fun replace_first :: "nat \<Rightarrow> nat \<Rightarrow> jsstring \<Rightarrow> jsstring" where
  "replace_first a b [] = []"
| "replace_first a b (c # cs) = (if c = a then b # cs else c # replace_first a b cs)"

text \<open>\<open>raw\<close> is \<open>None\<close> for \<open>null\<close> and \<open>undefined\<close>; the result is \<open>None\<close> for \<open>null\<close>.\<close>

definition parseMoneyToNumber :: "jsstring option \<Rightarrow> jsnum option" where
  "parseMoneyToNumber raw =
     (case raw of
        None \<Rightarrow> None
      | Some r \<Rightarrow>
          if r = [] then None
          else
            let s = trim r
            in if s = [] then None
               else
                 let s1 = filter (\<lambda>c. \<not> isStripped c) s;
                     s2 = (if comma \<in> set s1 \<and> period \<notin> set s1
                           then replace_first comma period s1 else s1);
                     s3 = filter (\<lambda>c. c \<noteq> comma) s2;
                     n = Number s3
                 in if isFinite n then Some n else None)"

section \<open>FX rates and conversion (src/lib/pricing.ts)\<close>

text \<open>The two environment variables \<open>FX_USD_EUR\<close> and \<open>FX_EUR_USD\<close>; \<open>None\<close> when unset.\<close>

record env =
  FX_USD_EUR :: "jsstring option"
  FX_EUR_USD :: "jsstring option"

record fx =
  usdToEur :: "jsnum option"
  eurToUsd :: "jsnum option"

definition envNumber :: "jsstring option \<Rightarrow> jsnum" where
  "envNumber raw = (case raw of None \<Rightarrow> NaN | Some s \<Rightarrow> if s \<noteq> [] then Number s else NaN)"

definition getFx :: "env \<Rightarrow> fx" where
  "getFx e =
     (let usdEurParsed = envNumber (FX_USD_EUR e);
          eurUsdParsed = envNumber (FX_EUR_USD e);
          usdEurValid = (isFinite usdEurParsed \<and> num_pos usdEurParsed);
          eurUsdValid = (isFinite eurUsdParsed \<and> num_pos eurUsdParsed);
          r0 = \<lparr>usdToEur = None, eurToUsd = None\<rparr>;
          r1 = (if usdEurValid
                then r0\<lparr>usdToEur := Some usdEurParsed, eurToUsd := Some (num_recip usdEurParsed)\<rparr>
                else r0);
          r2 = (if eurUsdValid
                then r1\<lparr>eurToUsd := Some eurUsdParsed, usdToEur := Some (num_recip eurUsdParsed)\<rparr>
                else r1)
      in r2)"

text \<open>Truthiness of \<open>number | null\<close>.\<close>

definition rate_usable :: "jsnum option \<Rightarrow> bool" where
  "rate_usable r = (case r of None \<Rightarrow> False | Some x \<Rightarrow> num_truthy x)"

definition convert :: "env \<Rightarrow> jsnum \<Rightarrow> Currency \<Rightarrow> Currency \<Rightarrow> jsnum option" where
  "convert e n from to =
     (if from = to then Some n
      else
        let f = getFx e
        in if from = USD \<and> to = EUR \<and> rate_usable (usdToEur f)
           then map_option (num_mul n) (usdToEur f)
           else if from = EUR \<and> to = USD \<and> rate_usable (eurToUsd f)
           then map_option (num_mul n) (eurToUsd f)
           else None)"

text \<open>
  \<open>formatMoney\<close> hands the number and the currency to \<open>Intl.NumberFormat\<close>, which is not
  part of the repository: it is the parameter \<open>fmt\<close>, a total function to strings.
\<close>

definition maybeFormat ::
  "(jsnum \<Rightarrow> Currency \<Rightarrow> 's) \<Rightarrow> env \<Rightarrow> jsstring option \<Rightarrow> Currency \<Rightarrow> DisplayCurrency \<Rightarrow> 's option"
where
  "maybeFormat fmt e valueText source display =
     (case parseMoneyToNumber valueText of
        None \<Rightarrow> None
      | Some n \<Rightarrow>
          (case display of
             NATIVE \<Rightarrow> Some (fmt n source)
           | Cur d \<Rightarrow>
               if d = source then Some (fmt n source)
               else (case convert e n source d of
                       None \<Rightarrow> Some (fmt n source)
                     | Some converted \<Rightarrow> Some (fmt converted d))))"

section \<open>The history endpoint's look-back window\<close>

definition clampDays :: "jsnum \<Rightarrow> jsnum" where
  "clampDays x =
     (case x of
        Finite q \<Rightarrow> Finite (min 365 (max 1 (of_int \<lfloor>q\<rfloor>)))
      | _ \<Rightarrow> Finite 90)"

text \<open>The call site: \<open>clampDays(Number(sp.get("days") ?? "90"))\<close>.\<close>

definition requestDays :: "jsstring option \<Rightarrow> jsnum" where
  "requestDays p = clampDays (Number (case p of None \<Rightarrow> js ''90'' | Some s \<Rightarrow> s))"

section \<open>The eBay price harvester (scripts/cron/fetchYgoEbayPrices.mjs)\<close>

subsection \<open>Numeric flags\<close>

text \<open>\<open>x < y\<close> on numbers: false as soon as one side is NaN.\<close>

fun num_lt :: "jsnum \<Rightarrow> jsnum \<Rightarrow> bool" where
  "num_lt NaN y = False"
| "num_lt x NaN = False"
| "num_lt (Finite a) (Finite b) = (a < b)"
| "num_lt (Finite a) PosInfinity = True"
| "num_lt (Finite a) NegInfinity = False"
| "num_lt PosInfinity y = False"
| "num_lt NegInfinity NegInfinity = False"
| "num_lt NegInfinity y = True"

text \<open>\<open>Math.max\<close> and \<open>Math.min\<close> of two numbers: NaN as soon as one argument is NaN.\<close>

definition math_max :: "jsnum \<Rightarrow> jsnum \<Rightarrow> jsnum" where
  "math_max x y = (if x = NaN \<or> y = NaN then NaN else if num_lt x y then y else x)"

definition math_min :: "jsnum \<Rightarrow> jsnum \<Rightarrow> jsnum" where
  "math_min x y = (if x = NaN \<or> y = NaN then NaN else if num_lt y x then y else x)"

text \<open>
  \<open>CONCURRENCY\<close>, from the value of \<open>flags.get('concurrency')\<close>: \<open>None\<close> when the flag is
  absent, \<open>"true"\<close> when it is given without a value.
\<close>

definition CONCURRENCY :: "jsstring option \<Rightarrow> jsnum" where
  "CONCURRENCY flag =
     math_min (Finite 8)
       (math_max (Finite 1) (Number (case flag of None \<Rightarrow> js ''4'' | Some v \<Rightarrow> v)))"

text \<open>
  \<open>BATCH\<close> and \<open>LIMIT\<close>, from the values of \<open>flags.get('batch')\<close> and
  \<open>flags.get('limit')\<close>: \<open>Math.max(50, Number(v ?? '500'))\<close> and \<open>Number(v ?? '0')\<close>.
\<close>

definition BATCH :: "jsstring option \<Rightarrow> jsnum" where
  "BATCH flag = math_max (Finite 50) (Number (case flag of None \<Rightarrow> js ''500'' | Some v \<Rightarrow> v))"

definition LIMIT :: "jsstring option \<Rightarrow> jsnum" where
  "LIMIT flag = Number (case flag of None \<Rightarrow> js ''0'' | Some v \<Rightarrow> v)"

text \<open>\<open>x >= y\<close> on numbers: false as soon as one side is NaN.\<close>

definition num_ge :: "jsnum \<Rightarrow> jsnum \<Rightarrow> bool" where
  "num_ge x y \<longleftrightarrow> x \<noteq> NaN \<and> y \<noteq> NaN \<and> \<not> num_lt x y"

text \<open>\<open>x - n\<close> for a count \<open>n\<close>.\<close>

fun num_minus :: "jsnum \<Rightarrow> nat \<Rightarrow> jsnum" where
  "num_minus (Finite q) n = Finite (q - of_nat n)"
| "num_minus x n = x"

subsection \<open>One request\<close>

text \<open>
  What the endpoint does for one id: the transport fails, or a response arrives with a
  status, a content type that names JSON or not, and a body that parses as JSON or not.
  Of a parsed body the harvester reads the truthiness of \<open>ok\<close>, of \<open>item.price.value\<close>
  and of \<open>item.itemWebUrl\<close>.
\<close>

record reply =
  ok :: bool
  price :: bool
  itemWebUrl :: bool

datatype http = TransportFailure | Response nat bool "reply option"

datatype fetch_error = FetchFailed | HttpStatus nat | JsonSyntaxError

text \<open>\<open>fetchOne\<close>: \<open>Inl\<close> is the rejection of the promise, \<open>Inr\<close> its value.\<close>

fun fetchOne :: "http \<Rightarrow> fetch_error + reply" where
  "fetchOne TransportFailure = Inl FetchFailed"
| "fetchOne (Response status isJson body) =
     (if \<not> (200 \<le> status \<and> status \<le> 299) then Inl (HttpStatus status)
      else if \<not> isJson then
        (case body of
           Some r \<Rightarrow> Inr r
         | None \<Rightarrow> Inr \<lparr>ok = False, price = False, itemWebUrl = False\<rparr>)
      else
        (case body of
           Some r \<Rightarrow> Inr r
         | None \<Rightarrow> Inl JsonSyntaxError))"

datatype outcome = Found | NotFound | Error

text \<open>The branch that the main loop takes for one entry \<open>[id, err, res]\<close> of the results.\<close>

fun classify :: "fetch_error + reply \<Rightarrow> outcome" where
  "classify (Inl err) = Error"
| "classify (Inr res) =
     (if ok res \<and> price res then Found else if ok res then NotFound else Error)"

subsection \<open>The command line\<close>

text \<open>
  \<open>flags\<close>: each argument is cut at its first \<open>=\<close>; without one, the argument less a
  leading \<open>--\<close> is a key with the value \<open>"true"\<close>. A later argument overrides an earlier
  one with the same key.
\<close>

definition parse_flag :: "jsstring \<Rightarrow> jsstring \<times> jsstring" where
  "parse_flag s =
     (if 61 \<in> set s
      then (let i = length (takeWhile (\<lambda>c. c \<noteq> 61) s)
            in (take (i - 2) (drop 2 s), drop (Suc i) s))
      else (if take 2 s = js ''--'' then drop 2 s else s, js ''true''))"

definition flags_get :: "jsstring list \<Rightarrow> jsstring \<Rightarrow> jsstring option" where
  "flags_get argv k = map_of (rev (map parse_flag argv)) k"

subsection \<open>The request pool\<close>

text \<open>
  What a run does that can be observed from outside, in order: a page query with its
  cursor, a request sent, a request settled, the line logged for an id, a call of
  \<open>saveCursor\<close>.
\<close>

datatype 'id event =
  Query "'id option" | Dispatch 'id | Settle 'id | Logged 'id outcome | Save 'id

text \<open>
  The variables of \<open>poolRun\<close>. The counter \<open>inFlight\<close> of the source is the length
  of the list of pending requests kept here; \<open>resolved\<close> says that \<open>resolveAll\<close> was called.
\<close>

record 'id pool =
  idx :: nat
  inFlight :: "'id list"
  results :: "('id \<times> (fetch_error + reply)) list"
  resolved :: bool
  events :: "'id event list"

text \<open>
  The world around a run: the ids of \<open>ygo_cards\<close>, the endpoint's answer for each id,
  the event loop's choice of the pending request that settles next, whether writing the
  cursor file succeeds, and the moment at which the probe
  \<open>tableExists('ygo_card_prices_ebay')\<close>, started before the loop and never awaited, sets
  \<open>HAS_YGO_EBAY_TABLE\<close>: \<open>Some j\<close> when the variable becomes true after the page query
  number \<open>j\<close> of the run has been built (the queries are counted from 0) and before the
  next one is, \<open>None\<close> when it stays false (no such table, or a failed probe, whose
  rejection is swallowed).
\<close>

record 'id world =
  cards :: "'id list"
  respond :: "'id \<Rightarrow> http"
  pick :: "'id list \<Rightarrow> nat"
  write_ok :: "'id \<Rightarrow> bool"
  probe_set :: "nat option"

function launch_while :: "'id list \<Rightarrow> jsnum \<Rightarrow> 'id pool \<Rightarrow> 'id pool" where
  "launch_while ids c p =
     (if num_lt (Finite (of_nat (length (inFlight p)))) c \<and> idx p < length ids
      then launch_while ids c
             (p\<lparr>idx := Suc (idx p),
                inFlight := inFlight p @ [ids ! idx p],
                events := events p @ [Dispatch (ids ! idx p)]\<rparr>)
      else p)"
  by pat_completeness auto
termination
  by (relation "measure (\<lambda>(ids, c, p). length ids - idx p)") auto

declare launch_while.simps [simp del]

definition launch :: "'id list \<Rightarrow> jsnum \<Rightarrow> 'id pool \<Rightarrow> 'id pool" where
  "launch ids c p =
     (if length ids \<le> idx p \<and> inFlight p = [] then p\<lparr>resolved := True\<rparr>
      else launch_while ids c p)"

text \<open>The \<open>k\<close>-th pending request settles: its result is pushed, the counter drops.\<close>

definition settle :: "'id world \<Rightarrow> nat \<Rightarrow> 'id pool \<Rightarrow> 'id pool" where
  "settle w k p =
     p\<lparr>inFlight := take k (inFlight p) @ drop (Suc k) (inFlight p),
       results := results p @ [(inFlight p ! k, fetchOne (respond w (inFlight p ! k)))],
       events := events p @ [Settle (inFlight p ! k)]\<rparr>"

lemma launch_while_stop:
  "\<not> (num_lt (Finite (of_nat (length (inFlight p)))) c \<and> idx p < length ids)
   \<Longrightarrow> launch_while ids c p = p"
  by (subst launch_while.simps) auto

lemma launch_while_step:
  "num_lt (Finite (of_nat (length (inFlight p)))) c \<and> idx p < length ids
   \<Longrightarrow> launch_while ids c p =
       launch_while ids c
         (p\<lparr>idx := Suc (idx p), inFlight := inFlight p @ [ids ! idx p],
            events := events p @ [Dispatch (ids ! idx p)]\<rparr>)"
  by (subst launch_while.simps) auto

lemma launch_while_measure:
  "2 * (length ids - idx (launch_while ids c p)) + length (inFlight (launch_while ids c p))
     \<le> 2 * (length ids - idx p) + length (inFlight p)
   \<and> resolved (launch_while ids c p) = resolved p"
proof (induction ids c p rule: launch_while.induct)
  case (1 ids c p)
  show ?case
  proof (cases "num_lt (Finite (of_nat (length (inFlight p)))) c \<and> idx p < length ids")
    case True
    let ?p = "p\<lparr>idx := Suc (idx p), inFlight := inFlight p @ [ids ! idx p],
                events := events p @ [Dispatch (ids ! idx p)]\<rparr>"
    have e: "launch_while ids c p = launch_while ids c ?p"
      using True by (rule launch_while_step)
    have ih: "2 * (length ids - idx (launch_while ids c ?p)) + length (inFlight (launch_while ids c ?p))
               \<le> 2 * (length ids - Suc (idx p)) + Suc (length (inFlight p))"
      and r: "resolved (launch_while ids c ?p) = resolved p"
      using "1.IH" [OF True] by simp_all
    have lt: "idx p < length ids" using True by simp
    have "2 * (length ids - Suc (idx p)) + Suc (length (inFlight p))
            \<le> 2 * (length ids - idx p) + length (inFlight p)"
      using lt by arith
    with ih r show ?thesis unfolding e by simp
  next
    case False
    then have "launch_while ids c p = p"
      by (rule launch_while_stop)
    then show ?thesis by simp
  qed
qed

text \<open>
  The life of the promise returned by \<open>poolRun\<close>: it is resolved, or a pending request
  settles and calls \<open>launch\<close>, or nothing is pending and nothing will ever call \<open>launch\<close>
  again: the promise never settles, which is \<open>None\<close>.
\<close>

function pool_loop :: "'id world \<Rightarrow> 'id list \<Rightarrow> jsnum \<Rightarrow> 'id pool \<Rightarrow> 'id pool option" where
  "pool_loop w ids c p =
     (if resolved p then Some p
      else if inFlight p = [] then None
      else pool_loop w ids c
             (launch ids c (settle w (pick w (inFlight p) mod length (inFlight p)) p)))"
  by pat_completeness auto
termination
proof (relation "measure (\<lambda>(w, ids, c, p).
          (if resolved p then 0 else 1) + 2 * (length ids - idx p) + length (inFlight p))",
       goal_cases)
  case 1
  show ?case by simp
next
  case (2 w ids c p)
  let ?k = "pick w (inFlight p) mod length (inFlight p)"
  let ?q = "settle w ?k p"
  have k: "?k < length (inFlight p)" using 2 by simp
  have q: "length (inFlight ?q) + 1 = length (inFlight p)" "idx ?q = idx p" "resolved ?q = resolved p"
    using k by (auto simp: settle_def)
  have "(if resolved (launch ids c ?q) then 0 else 1) + 2 * (length ids - idx (launch ids c ?q))
          + length (inFlight (launch ids c ?q))
        \<le> 1 + 2 * (length ids - idx ?q) + length (inFlight ?q)"
    using launch_while_measure [of ids c ?q] by (auto simp: launch_def)
  with q 2 show ?case by simp
qed

declare pool_loop.simps [simp del]

definition pool_init :: "'id pool" where
  "pool_init = \<lparr>idx = 0, inFlight = [], results = [], resolved = False, events = []\<rparr>"

definition pool_final :: "'id world \<Rightarrow> 'id list \<Rightarrow> jsnum \<Rightarrow> 'id pool option" where
  "pool_final w ids c = pool_loop w ids c (launch ids c pool_init)"

definition poolRun ::
  "'id world \<Rightarrow> 'id list \<Rightarrow> jsnum \<Rightarrow> ('id \<times> (fetch_error + reply)) list option" where
  "poolRun w ids c = map_option results (pool_final w ids c)"
subsection \<open>Cursor and page query\<close>

text \<open>
  The constants that the flags set: \<open>limit\<close>, \<open>batch\<close> and \<open>concurrency\<close> are \<open>LIMIT\<close>,
  \<open>BATCH\<close> and \<open>CONCURRENCY\<close>, \<open>dry_run\<close> and \<open>only_missing_ebay\<close> are \<open>DRY_RUN\<close> and
  \<open>FLAG_ONLY_MISSING_EBAY\<close>, \<open>start_after\<close> is \<open>START_AFTER\<close>, read as an id.
\<close>

record 'id config =
  limit :: jsnum
  batch :: jsnum
  concurrency :: jsnum
  dry_run :: bool
  start_after :: "'id option"
  only_missing_ebay :: bool

text \<open>
  The constants for a command line. \<open>START_AFTER\<close> is \<open>flags.get('startAfter') || null\<close>:
  null for a missing or empty value; \<open>id_of\<close> gives the id that a text denotes.
\<close>

definition config_of_flags :: "(jsstring \<Rightarrow> 'id) \<Rightarrow> jsstring list \<Rightarrow> 'id config" where
  "config_of_flags id_of argv =
     \<lparr>limit = LIMIT (flags_get argv (js ''limit'')),
      batch = BATCH (flags_get argv (js ''batch'')),
      concurrency = CONCURRENCY (flags_get argv (js ''concurrency'')),
      dry_run = (flags_get argv (js ''dry-run'') \<noteq> None),
      start_after = (case flags_get argv (js ''startAfter'') of
                       None \<Rightarrow> None
                     | Some v \<Rightarrow> if v = [] then None else Some (id_of v)),
      only_missing_ebay = (flags_get argv (js ''only-missing-ebay'') \<noteq> None)\<rparr>"

text \<open>
  The cursor file holds the last id written and a newline, and is read back trimmed: its
  content is modelled by the id (an id has no white space around it), \<open>None\<close> for a
  missing or empty file. A failed write is swallowed by \<open>saveCursor\<close> and leaves the
  file as it was. The ids are ordered as the database orders \<open>card_id\<close>.
\<close>

definition loadCursor :: "'id config \<Rightarrow> 'id option \<Rightarrow> 'id option" where
  "loadCursor cfg f = (case start_after cfg of Some s \<Rightarrow> Some s | None \<Rightarrow> f)"

definition saveCursor :: "'id world \<Rightarrow> 'id \<Rightarrow> 'id option \<Rightarrow> 'id option" where
  "saveCursor w i f = (if write_ok w i then Some i else f)"

text \<open>
  \<open>HAS_YGO_EBAY_TABLE\<close> when the page query number \<open>k\<close> is built. It is false for the
  first query, which is built before the probe can settle.
\<close>

definition HAS_YGO_EBAY_TABLE :: "'id world \<Rightarrow> nat \<Rightarrow> bool" where
  "HAS_YGO_EBAY_TABLE w k = (case probe_set w of None \<Rightarrow> False | Some j \<Rightarrow> j < k)"

text \<open>
  The parameter of \<open>LIMIT\<close> in the page query: the database takes a whole number from 0
  below \<open>2 ^ 63\<close> and refuses anything else, NaN and the infinities included.
\<close>

definition limit_param :: "jsnum \<Rightarrow> nat option" where
  "limit_param x =
     (case x of
        Finite q \<Rightarrow> (if of_int \<lfloor>q\<rfloor> = q \<and> 0 \<le> q \<and> q < 2 ^ 63 then Some (nat \<lfloor>q\<rfloor>) else None)
      | _ \<Rightarrow> None)"

definition after_cursor :: "'id::linorder option \<Rightarrow> 'id \<Rightarrow> bool" where
  "after_cursor after i = (case after of None \<Rightarrow> True | Some a \<Rightarrow> a < i)"

text \<open>
  The page query number \<open>k\<close> of a run; \<open>None\<close> when the database refuses it and the
  promise is rejected. With \<open>--only-missing-ebay\<close> and \<open>HAS_YGO_EBAY_TABLE\<close> the clause
  \<open>NOT EXISTS (...)\<close> is added, in which \<open>DAYS_FRESH\<close> is a bound parameter inside the
  quoted text of \<open>INTERVAL '... days'\<close>: the database refuses that query. Without the
  clause the answer is the ids of \<open>ygo_cards\<close> greater than \<open>after\<close> (all of them without
  a cursor), in ascending order, at most \<open>lmt\<close> of them.
\<close>

definition getIdsPage ::
  "'id::linorder world \<Rightarrow> 'id config \<Rightarrow> nat \<Rightarrow> 'id option \<Rightarrow> jsnum \<Rightarrow> 'id list option" where
  "getIdsPage w cfg k after lmt =
     (if only_missing_ebay cfg \<and> HAS_YGO_EBAY_TABLE w k then None
      else case limit_param lmt of
             None \<Rightarrow> None
           | Some n \<Rightarrow> Some (take n (sort (filter (after_cursor after) (cards w)))))"

subsection \<open>The main loop\<close>

record 'id harvest =
  processed :: nat
  found :: nat
  errors :: nat
  cursor :: "'id option"
  cursor_file :: "'id option"
  trace :: "'id event list"
  batches :: "'id list list"

text \<open>The body of \<open>for (const [id, err, res] of results)\<close>.\<close>

definition handle :: "'id \<times> (fetch_error + reply) \<Rightarrow> 'id harvest \<Rightarrow> 'id harvest" where
  "handle r st =
     (case classify (snd r) of
        Error \<Rightarrow> st\<lparr>errors := Suc (errors st), trace := trace st @ [Logged (fst r) Error]\<rparr>
      | Found \<Rightarrow> st\<lparr>found := Suc (found st), trace := trace st @ [Logged (fst r) Found]\<rparr>
      | NotFound \<Rightarrow> st\<lparr>trace := trace st @ [Logged (fst r) NotFound]\<rparr>)"

text \<open>The requests of one batch, skipped in a dry run; \<open>None\<close> when \<open>poolRun\<close> never settles.\<close>

definition dispatch_batch ::
  "'id world \<Rightarrow> 'id config \<Rightarrow> 'id list \<Rightarrow> 'id harvest \<Rightarrow> 'id harvest option" where
  "dispatch_batch w cfg ids st =
     (if dry_run cfg then Some st
      else case pool_final w ids (concurrency cfg) of
             None \<Rightarrow> None
           | Some p \<Rightarrow> Some (fold handle (results p) (st\<lparr>trace := trace st @ events p\<rparr>)))"

text \<open>The end of an iteration: the counter, the cursor and its file.\<close>

definition advance :: "'id world \<Rightarrow> 'id list \<Rightarrow> 'id harvest \<Rightarrow> 'id harvest" where
  "advance w ids st =
     st\<lparr>processed := processed st + length ids,
        cursor := Some (last ids),
        cursor_file := saveCursor w (last ids) (cursor_file st),
        trace := trace st @ [Save (last ids)],
        batches := batches st @ [ids]\<rparr>"

text \<open>
  \<open>remainingCap\<close> after \<open>n\<close> processed ids, for a page of \<open>len\<close> ids, and
  \<open>toFetch.slice(0, remainingCap)\<close>: the end of a slice is truncated to a whole number, NaN
  is 0, and a negative end counts from the end of the list.
\<close>

definition remainingCap :: "jsnum \<Rightarrow> nat \<Rightarrow> nat \<Rightarrow> jsnum" where
  "remainingCap lmt n len =
     (if num_lt (Finite 0) lmt then math_max (Finite 0) (num_minus lmt n)
      else Finite (of_nat len))"

definition slice0 :: "'a list \<Rightarrow> jsnum \<Rightarrow> 'a list" where
  "slice0 xs e =
     take (case e of
             Finite q \<Rightarrow> (if q < 0 then nat (int (length xs) + \<lceil>q\<rceil>) else nat \<lfloor>q\<rfloor>)
           | PosInfinity \<Rightarrow> length xs
           | _ \<Rightarrow> 0) xs"

text \<open>The test \<open>LIMIT > 0 && processed >= LIMIT\<close> that ends the loop.\<close>

definition limit_reached :: "jsnum \<Rightarrow> nat \<Rightarrow> bool" where
  "limit_reached lmt n \<longleftrightarrow> num_lt (Finite 0) lmt \<and> num_ge (Finite (of_nat n)) lmt"

lemma getIdsPage_after:
  "getIdsPage w cfg k after lmt = Some page \<Longrightarrow> i \<in> set page
   \<Longrightarrow> after_cursor after i \<and> i \<in> set (cards w)"
  by (auto simp: getIdsPage_def dest: in_set_takeD split: if_splits option.splits)

lemma filter_after_shrinks:
  fixes x :: "'id::linorder"
  assumes "x \<in> set xs" and "after_cursor c x"
  shows "length (filter (after_cursor (Some x)) xs) < length (filter (after_cursor c) xs)"
proof -
  have "length (filter (after_cursor (Some x)) xs)
          = length (filter (\<lambda>i. after_cursor (Some x) i) (filter (after_cursor c) xs))"
  proof -
    have "\<And>i. after_cursor (Some x) i \<Longrightarrow> after_cursor c i"
      using assms(2) by (auto simp: after_cursor_def split: option.splits)
    then have "filter (after_cursor (Some x)) xs
                 = filter (\<lambda>i. after_cursor (Some x) i) (filter (after_cursor c) xs)"
      by (auto intro: filter_cong)
    then show ?thesis by simp
  qed
  also have "\<dots> < length (filter (after_cursor c) xs)"
  proof (rule length_filter_less)
    show "x \<in> set (filter (after_cursor c) xs)" using assms by simp
    show "\<not> after_cursor (Some x) x" by (simp add: after_cursor_def)
  qed
  finally show ?thesis .
qed

text \<open>
  How a run ends: the loop is left and \<open>Done\<close> is logged; a page query is refused, and
  the rejection, which nothing catches, ends the process; or \<open>poolRun\<close> never settles and
  the loop waits on it for ever.
\<close>

datatype ending = Completed | QueryRejected | NeverSettles

text \<open>
  The loop \<open>while (true)\<close> from a state of the variables: how it ends, and the state
  then. The number of the page query is the number of batches so far. The inter-batch
  sleep has no effect on the state.
\<close>

function main_loop ::
  "'id::linorder world \<Rightarrow> 'id config \<Rightarrow> 'id harvest \<Rightarrow> ending \<times> 'id harvest" where
  "main_loop w cfg st =
     (let st1 = st\<lparr>trace := trace st @ [Query (cursor st)]\<rparr>
      in case getIdsPage w cfg (length (batches st)) (cursor st) (batch cfg) of
           None \<Rightarrow> (QueryRejected, st1)
         | Some toFetch \<Rightarrow>
             if toFetch = [] then (Completed, st1)
             else
               let ids = slice0 toFetch (remainingCap (limit cfg) (processed st) (length toFetch))
               in if ids = [] then (Completed, st1)
                  else (case dispatch_batch w cfg ids st1 of
                          None \<Rightarrow> (NeverSettles, st1)
                        | Some st2 \<Rightarrow>
                            if limit_reached (limit cfg) (processed (advance w ids st2))
                            then (Completed, advance w ids st2)
                            else main_loop w cfg (advance w ids st2)))"
  by pat_completeness auto
termination
proof (relation "measure (\<lambda>(w, cfg, st). length (filter (after_cursor (cursor st)) (cards w)))",
       goal_cases)
  case 1
  show ?case by simp
next
  case (2 w cfg st st1 toFetch ids st2)
  have "ids \<noteq> []" using 2 by simp
  then have "last ids \<in> set ids" by simp
  moreover have "set ids \<subseteq> set toFetch"
    unfolding \<open>ids = slice0 toFetch (remainingCap (limit cfg) (processed st) (length toFetch))\<close>
      slice0_def by (rule set_take_subset)
  ultimately have "last ids \<in> set toFetch" by blast
  with \<open>getIdsPage w cfg (length (batches st)) (cursor st) (batch cfg) = Some toFetch\<close>
  have "after_cursor (cursor st) (last ids) \<and> last ids \<in> set (cards w)"
    by (rule getIdsPage_after)
  then have "length (filter (after_cursor (Some (last ids))) (cards w))
               < length (filter (after_cursor (cursor st)) (cards w))"
    by (simp add: filter_after_shrinks)
  then show ?case by (simp add: advance_def)
qed

declare main_loop.simps [simp del]

definition harvest_init :: "'id config \<Rightarrow> 'id option \<Rightarrow> 'id harvest" where
  "harvest_init cfg f =
     \<lparr>processed = 0, found = 0, errors = 0, cursor = loadCursor cfg f, cursor_file = f,
      trace = [], batches = []\<rparr>"

text \<open>
  A run of the script from the content \<open>f\<close> of the cursor file, once the checks of the
  environment variables at its head have passed.
\<close>

definition harvest_run ::
  "'id::linorder world \<Rightarrow> 'id config \<Rightarrow> 'id option \<Rightarrow> ending \<times> 'id harvest" where
  "harvest_run w cfg f = main_loop w cfg (harvest_init cfg f)"

subsection \<open>Reading a trace\<close>

fun dispatch_of :: "'id event \<Rightarrow> 'id list" where
  "dispatch_of (Dispatch i) = [i]"
| "dispatch_of e = []"

fun settle_of :: "'id event \<Rightarrow> 'id list" where
  "settle_of (Settle i) = [i]"
| "settle_of e = []"

fun save_of :: "'id event \<Rightarrow> 'id list" where
  "save_of (Save i) = [i]"
| "save_of e = []"

fun logged_of :: "'id event \<Rightarrow> ('id \<times> outcome) list" where
  "logged_of (Logged i out) = [(i, out)]"
| "logged_of e = []"

fun query_of :: "'id event \<Rightarrow> 'id option list" where
  "query_of (Query c) = [c]"
| "query_of e = []"

text \<open>The ids of the requests sent, of the requests settled, and of the cursors saved, in order.\<close>

definition dispatched :: "'id event list \<Rightarrow> 'id list" where
  "dispatched tr = concat (map dispatch_of tr)"

definition settled :: "'id event list \<Rightarrow> 'id list" where
  "settled tr = concat (map settle_of tr)"

definition saved :: "'id event list \<Rightarrow> 'id list" where
  "saved tr = concat (map save_of tr)"

definition logged :: "'id event list \<Rightarrow> ('id \<times> outcome) list" where
  "logged tr = concat (map logged_of tr)"

definition queried :: "'id event list \<Rightarrow> 'id option list" where
  "queried tr = concat (map query_of tr)"

text \<open>The number of requests in flight after a trace: those sent and not yet settled.\<close>

definition in_flight :: "'id event list \<Rightarrow> nat" where
  "in_flight tr = length (dispatched tr) - length (settled tr)"

text \<open>The content of the cursor file after a trace, from the content \<open>f\<close> before it.\<close>

definition file_after :: "'id world \<Rightarrow> 'id option \<Rightarrow> 'id event list \<Rightarrow> 'id option" where
  "file_after w f tr = fold (saveCursor w) (saved tr) f"

subsection \<open>The batches of a run\<close>

text \<open>
  The ids that the iteration number \<open>k\<close> takes from the cursor \<open>c\<close> after \<open>n\<close> processed
  ids: the page, cut to what the limit leaves; \<open>None\<close> when the page query is refused.
\<close>

definition next_batch ::
  "'id::linorder world \<Rightarrow> 'id config \<Rightarrow> nat \<Rightarrow> 'id option \<Rightarrow> nat \<Rightarrow> 'id list option" where
  "next_batch w cfg k c n =
     map_option (\<lambda>toFetch. slice0 toFetch (remainingCap (limit cfg) n (length toFetch)))
       (getIdsPage w cfg k c (batch cfg))"

lemma next_batch_after:
  "next_batch w cfg k c n = Some ids \<Longrightarrow> i \<in> set ids \<Longrightarrow> after_cursor c i \<and> i \<in> set (cards w)"
  unfolding next_batch_def slice0_def by (auto dest: in_set_takeD getIdsPage_after)

text \<open>
  The batches that the loop goes through from a cursor, and how it ends: they depend on
  the table, the probe and the flags, not on the answers of the endpoint.
\<close>

function plan ::
  "'id::linorder world \<Rightarrow> 'id config \<Rightarrow> nat \<Rightarrow> 'id option \<Rightarrow> nat \<Rightarrow> 'id list list \<times> ending" where
  "plan w cfg k c n =
     (case next_batch w cfg k c n of
        None \<Rightarrow> ([], QueryRejected)
      | Some ids \<Rightarrow>
          if ids = [] then ([], Completed)
          else if \<not> dry_run cfg \<and> \<not> num_lt (Finite 0) (concurrency cfg) then ([], NeverSettles)
          else if limit_reached (limit cfg) (n + length ids) then ([ids], Completed)
          else (let r = plan w cfg (Suc k) (Some (last ids)) (n + length ids)
                in (ids # fst r, snd r)))"
  by pat_completeness auto
termination
proof (relation "measure (\<lambda>(w, cfg, k, c, n). length (filter (after_cursor c) (cards w)))",
       goal_cases)
  case 1
  show ?case by simp
next
  case (2 w cfg k c n ids)
  then have "ids \<noteq> []" by blast
  then have li: "last ids \<in> set ids" by (rule last_in_set)
  from 2 have nb: "next_batch w cfg k c n = Some ids" by blast
  from nb li have "after_cursor c (last ids) \<and> last ids \<in> set (cards w)"
    by (rule next_batch_after)
  then show ?case by (simp add: filter_after_shrinks)
qed

declare plan.simps [simp del]

text \<open>What the main loop logs for an id: the class of the result of its request.\<close>

definition outcome_of :: "'id world \<Rightarrow> 'id \<Rightarrow> outcome" where
  "outcome_of w i = classify (fetchOne (respond w i))"

text \<open>
  Batches in ascending order from a cursor: each is non-empty and sorted, its ids are
  greater than the cursor, and the next ones start from its last id.
\<close>

fun ascending :: "'id::linorder option \<Rightarrow> 'id list list \<Rightarrow> bool" where
  "ascending c [] = True"
| "ascending c (b # bs) =
     (b \<noteq> [] \<and> sorted b \<and> list_all (after_cursor c) b \<and> ascending (Some (last b)) bs)"

text \<open>
  A trace cut at the calls of \<open>saveCursor\<close>: for each call, the events since the call
  before it and the id it saves. What follows the last call is left out.
\<close>

fun split_saves :: "'id event list \<Rightarrow> 'id event list \<Rightarrow> ('id event list \<times> 'id) list" where
  "split_saves acc [] = []"
| "split_saves acc (Save x # tr) = (acc, x) # split_saves [] tr"
| "split_saves acc (e # tr) = split_saves (acc @ [e]) tr"

text \<open>What a segment of the trace shows, and what a batch should have left there.\<close>

definition seg_read :: "'id event list \<times> 'id \<Rightarrow> 'id list \<times> 'id multiset \<times> 'id" where
  "seg_read s = (dispatched (fst s), mset (settled (fst s)), snd s)"

definition batch_read :: "'id config \<Rightarrow> 'id list \<Rightarrow> 'id list \<times> 'id multiset \<times> 'id" where
  "batch_read cfg b = (if dry_run cfg then ([], {#}, last b) else (b, mset b, last b))"

subsection \<open>A small run\<close>

text \<open>
  Sixty-two cards; the request for card 2 fails in transport, the one for card 4 gets a
  500, card 3 has a price, the others are not found. The table \<open>ygo_card_prices_ebay\<close>
  exists, and the probe has found it when the second page query is built.
\<close>

definition example_world :: "nat world" where
  "example_world =
     \<lparr>cards = rev [1..<63],
      respond = (\<lambda>i. if i = 2 then TransportFailure
                      else if i = 4 then Response 500 True None
                      else Response 200 True (Some \<lparr>ok = True, price = (i = 3), itemWebUrl = False\<rparr>)),
      pick = (\<lambda>xs. 0),
      write_ok = (\<lambda>i. True),
      probe_set = Some 0\<rparr>"

text \<open>The ids of the example are numbers, written in decimal on the command line.\<close>

definition nat_id :: "jsstring \<Rightarrow> nat" where
  "nat_id v = foldl (\<lambda>n c. 10 * n + (c - 48)) 0 v"

text \<open>The command line \<open>--all --batch=50 --concurrency=2\<close>: batches of fifty, two requests at a time.\<close>

definition example_config :: "nat config" where
  "example_config =
     config_of_flags nat_id [js ''--all'', js ''--batch=50'', js ''--concurrency=2'']"

section \<open>The price snapshot (scripts/snapshotPrices.js)\<close>

text \<open>The script's own copy of the money parser: \<open>raw == null\<close> instead of \<open>!raw\<close>.\<close>

definition snapshot_parseMoneyToNumber :: "jsstring option \<Rightarrow> jsnum option" where
  "snapshot_parseMoneyToNumber raw =
     (case raw of
        None \<Rightarrow> None
      | Some r \<Rightarrow>
          let s = trim r
          in if s = [] then None
             else
               let s1 = filter (\<lambda>c. \<not> isStripped c) s;
                   s2 = (if comma \<in> set s1 \<and> period \<notin> set s1
                         then replace_first comma period s1 else s1);
                   s3 = filter (\<lambda>c. c \<noteq> comma) s2;
                   n = Number s3
               in if isFinite n then Some n else None)"

text \<open>
  \<open>parseTs\<close>: \<open>Date.parse\<close> and \<open>toISOString\<close> are the parameter \<open>toISO\<close>, the ISO form
  of a text that parses as a date and \<open>None\<close> for any other text.
\<close>

definition parseTs :: "(jsstring \<Rightarrow> jsstring option) \<Rightarrow> jsstring option \<Rightarrow> jsstring option" where
  "parseTs toISO raw =
     (case raw of None \<Rightarrow> None | Some r \<Rightarrow> if r = [] then None else toISO r)"

text \<open>
  A row of a current-price table gives for each column its text, or \<open>None\<close> for null.
  A row of a history table is the list of the parameters of its \<open>INSERT\<close>.
\<close>

type_synonym row = "string \<Rightarrow> jsstring option"

datatype sqlval = Null | Text jsstring | Num jsnum

definition text_param :: "jsstring option \<Rightarrow> sqlval" where
  "text_param v = (case v of None \<Rightarrow> Null | Some s \<Rightarrow> Text s)"

definition money_param :: "jsstring option \<Rightarrow> sqlval" where
  "money_param v = (case snapshot_parseMoneyToNumber v of None \<Rightarrow> Null | Some n \<Rightarrow> Num n)"

definition tcgplayer_params :: "(jsstring \<Rightarrow> jsstring option) \<Rightarrow> row \<Rightarrow> sqlval list" where
  "tcgplayer_params toISO r =
     [text_param (r ''card_id''),
      text_param (parseTs toISO (r ''updated_at'')),
      text_param (r ''currency''),
      money_param (r ''normal''),
      money_param (r ''holofoil''),
      money_param (r ''reverse_holofoil''),
      money_param (r ''first_edition_holofoil''),
      money_param (r ''first_edition_normal'')]"

definition cardmarket_params :: "(jsstring \<Rightarrow> jsstring option) \<Rightarrow> row \<Rightarrow> sqlval list" where
  "cardmarket_params toISO r =
     [text_param (r ''card_id''),
      text_param (parseTs toISO (r ''updated_at'')),
      money_param (r ''average_sell_price''),
      money_param (r ''low_price''),
      money_param (r ''trend_price''),
      money_param (r ''german_pro_low''),
      money_param (r ''suggested_price''),
      money_param (r ''reverse_holo_sell''),
      money_param (r ''reverse_holo_low''),
      money_param (r ''reverse_holo_trend''),
      money_param (r ''low_price_ex_plus''),
      money_param (r ''avg1''),
      money_param (r ''avg7''),
      money_param (r ''avg30''),
      money_param (r ''reverse_holo_avg1''),
      money_param (r ''reverse_holo_avg7''),
      money_param (r ''reverse_holo_avg30'')]"

definition ygo_params :: "row \<Rightarrow> sqlval list" where
  "ygo_params r =
     [text_param (r ''card_id''),
      money_param (r ''tcgplayer_price''),
      money_param (r ''cardmarket_price''),
      money_param (r ''ebay_price''),
      money_param (r ''amazon_price''),
      money_param (r ''coolstuffinc_price'')]"

subsection \<open>The database\<close>

text \<open>
  The three current-price tables and their three history tables. A connection sees the
  committed state, or inside a transaction the state of the transaction: \<open>BEGIN\<close> opens it
  on the committed state, \<open>COMMIT\<close> makes it the committed state, \<open>ROLLBACK\<close> drops it. An
  \<open>INSERT\<close> that the database refuses (the parameter \<open>accepts\<close>) raises an error; the other
  statements succeed.
\<close>

record db =
  tcg_card_prices_tcgplayer :: "row list"
  tcg_card_prices_cardmarket :: "row list"
  ygo_card_prices :: "row list"
  tcg_card_prices_tcgplayer_history :: "sqlval list list"
  tcg_card_prices_cardmarket_history :: "sqlval list list"
  ygo_card_prices_history :: "sqlval list list"

datatype history_table = TcgplayerHistory | CardmarketHistory | YgoHistory

record client =
  committed :: db
  working :: "db option"

datatype db_error = InsertRefused history_table "sqlval list"

definition view :: "client \<Rightarrow> db" where
  "view c = (case working c of Some d \<Rightarrow> d | None \<Rightarrow> committed c)"

definition put_view :: "db \<Rightarrow> client \<Rightarrow> client" where
  "put_view d c = (case working c of Some d0 \<Rightarrow> c\<lparr>working := Some d\<rparr> | None \<Rightarrow> c\<lparr>committed := d\<rparr>)"

definition query_begin :: "client \<Rightarrow> client" where
  "query_begin c = (case working c of Some d \<Rightarrow> c | None \<Rightarrow> c\<lparr>working := Some (committed c)\<rparr>)"

definition query_commit :: "client \<Rightarrow> client" where
  "query_commit c = (case working c of Some d \<Rightarrow> \<lparr>committed = d, working = None\<rparr> | None \<Rightarrow> c)"

definition query_rollback :: "client \<Rightarrow> client" where
  "query_rollback c = c\<lparr>working := None\<rparr>"

definition append_history :: "history_table \<Rightarrow> sqlval list \<Rightarrow> db \<Rightarrow> db" where
  "append_history t ps d =
     (case t of
        TcgplayerHistory \<Rightarrow>
          d\<lparr>tcg_card_prices_tcgplayer_history := tcg_card_prices_tcgplayer_history d @ [ps]\<rparr>
      | CardmarketHistory \<Rightarrow>
          d\<lparr>tcg_card_prices_cardmarket_history := tcg_card_prices_cardmarket_history d @ [ps]\<rparr>
      | YgoHistory \<Rightarrow>
          d\<lparr>ygo_card_prices_history := ygo_card_prices_history d @ [ps]\<rparr>)"

definition query_insert ::
  "(history_table \<Rightarrow> sqlval list \<Rightarrow> bool) \<Rightarrow> history_table \<Rightarrow> sqlval list \<Rightarrow> client
     \<Rightarrow> db_error + client" where
  "query_insert accepts t ps c =
     (if accepts t ps then Inr (put_view (append_history t ps (view c)) c)
      else Inl (InsertRefused t ps))"

subsection \<open>The snapshot of one table and the run\<close>

text \<open>
  The loop \<open>for (const r of rows)\<close> of each snapshot function, from the count so far: the
  count of the rows inserted, or the error of the first insert that is refused together
  with the connection as the error left it.
\<close>

fun insert_rows ::
  "(history_table \<Rightarrow> sqlval list \<Rightarrow> bool) \<Rightarrow> history_table \<Rightarrow> sqlval list list \<Rightarrow> nat
     \<Rightarrow> client \<Rightarrow> (db_error \<times> client) + (nat \<times> client)" where
  "insert_rows accepts t [] cnt c = Inr (cnt, c)"
| "insert_rows accepts t (ps # rest) cnt c =
     (case query_insert accepts t ps c of
        Inl e \<Rightarrow> Inl (e, c)
      | Inr c' \<Rightarrow> insert_rows accepts t rest (Suc cnt) c')"

definition snapshotPokemonTcgplayer ::
  "(history_table \<Rightarrow> sqlval list \<Rightarrow> bool) \<Rightarrow> (jsstring \<Rightarrow> jsstring option) \<Rightarrow> client
     \<Rightarrow> (db_error \<times> client) + (nat \<times> client)" where
  "snapshotPokemonTcgplayer accepts toISO c =
     insert_rows accepts TcgplayerHistory
       (map (tcgplayer_params toISO) (tcg_card_prices_tcgplayer (view c))) 0 c"

definition snapshotPokemonCardmarket ::
  "(history_table \<Rightarrow> sqlval list \<Rightarrow> bool) \<Rightarrow> (jsstring \<Rightarrow> jsstring option) \<Rightarrow> client
     \<Rightarrow> (db_error \<times> client) + (nat \<times> client)" where
  "snapshotPokemonCardmarket accepts toISO c =
     insert_rows accepts CardmarketHistory
       (map (cardmarket_params toISO) (tcg_card_prices_cardmarket (view c))) 0 c"

definition snapshotYgo ::
  "(history_table \<Rightarrow> sqlval list \<Rightarrow> bool) \<Rightarrow> client \<Rightarrow> (db_error \<times> client) + (nat \<times> client)" where
  "snapshotYgo accepts c =
     insert_rows accepts YgoHistory (map ygo_params (ygo_card_prices (view c))) 0 c"

text \<open>
  What a run leaves: the exit code of the process, the three counts of the line
  \<open>Done. Inserted: \<dots>\<close> when it is logged, and the committed state of the database once
  the connection is closed.
\<close>

record snapshot_result =
  exitCode :: nat
  reported :: "(nat \<times> nat \<times> nat) option"
  database :: db

text \<open>The body of \<open>try\<close>: \<open>Inl\<close> is the exception that reaches \<open>catch\<close>.\<close>

definition try_body ::
  "(history_table \<Rightarrow> sqlval list \<Rightarrow> bool) \<Rightarrow> (jsstring \<Rightarrow> jsstring option) \<Rightarrow> client
     \<Rightarrow> (db_error \<times> client) + ((nat \<times> nat \<times> nat) \<times> client)" where
  "try_body accepts toISO c0 =
     (let c1 = query_begin c0
      in case snapshotPokemonTcgplayer accepts toISO c1 of
           Inl x \<Rightarrow> Inl x
         | Inr (a, c2) \<Rightarrow>
             (case snapshotPokemonCardmarket accepts toISO c2 of
                Inl x \<Rightarrow> Inl x
              | Inr (b, c3) \<Rightarrow>
                  (case snapshotYgo accepts c3 of
                     Inl x \<Rightarrow> Inl x
                   | Inr (c, c4) \<Rightarrow> Inr ((a, b, c), query_commit c4))))"

text \<open>
  \<open>main\<close>, from the value of \<open>DATABASE_URL\<close> and the database behind it; the connection
  opens outside a transaction, and closing it drops a transaction left open.
\<close>

definition main ::
  "(history_table \<Rightarrow> sqlval list \<Rightarrow> bool) \<Rightarrow> (jsstring \<Rightarrow> jsstring option)
     \<Rightarrow> jsstring option \<Rightarrow> db \<Rightarrow> snapshot_result" where
  "main accepts toISO url d =
     (if url = None \<or> url = Some [] then \<lparr>exitCode = 1, reported = None, database = d\<rparr>
      else
        case try_body accepts toISO \<lparr>committed = d, working = None\<rparr> of
          Inr (counts, c) \<Rightarrow>
            \<lparr>exitCode = 0, reported = Some counts, database = committed (query_rollback c)\<rparr>
        | Inl (err, c) \<Rightarrow>
            \<lparr>exitCode = 1, reported = None, database = committed (query_rollback c)\<rparr>)"

text \<open>A small database: one TCGplayer row, no Cardmarket row, two Yu-Gi-Oh! rows.\<close>

definition example_db :: db where
  "example_db =
     \<lparr>tcg_card_prices_tcgplayer =
        [(\<lambda>k. if k = ''card_id'' then Some (js ''E1'')
              else if k = ''normal'' then Some (js ''$3.50'')
              else if k = ''currency'' then Some (js ''USD'') else None)],
      tcg_card_prices_cardmarket = [],
      ygo_card_prices =
        [(\<lambda>k. if k = ''card_id'' then Some (js ''Y1'')
              else if k = ''ebay_price'' then Some (js ''1,200.00'') else None),
         (\<lambda>k. if k = ''card_id'' then Some (js ''Y2'') else None)],
      tcg_card_prices_tcgplayer_history = [],
      tcg_card_prices_cardmarket_history = [],
      ygo_card_prices_history = [[Text (js ''Y0''), Null, Null, Null, Null, Null]]\<rparr>"

section \<open>Invariants of the harvester\<close>

text \<open>What holds of the variables of \<open>poolRun\<close> for the batch \<open>ids\<close> at every step.\<close>

definition pool_inv :: "'id world \<Rightarrow> 'id list \<Rightarrow> 'id pool \<Rightarrow> bool" where
  "pool_inv w ids p \<longleftrightarrow>
     idx p \<le> length ids
     \<and> dispatched (events p) = take (idx p) ids
     \<and> settled (events p) = map fst (results p)
     \<and> mset (inFlight p) + mset (map fst (results p)) = mset (take (idx p) ids)
     \<and> list_all (\<lambda>r. snd r = fetchOne (respond w (fst r))) (results p)
     \<and> saved (events p) = [] \<and> logged (events p) = [] \<and> queried (events p) = []
     \<and> (resolved p \<longrightarrow> length ids \<le> idx p \<and> inFlight p = [])"

text \<open>
  The pool with a bound \<open>k\<close> that is not below the concurrency: at every point of the
  trace at most \<open>k\<close> requests are in flight.
\<close>

definition pool_bounded :: "nat \<Rightarrow> 'id pool \<Rightarrow> bool" where
  "pool_bounded k p \<longleftrightarrow>
     length (dispatched (events p)) = length (settled (events p)) + length (inFlight p)
     \<and> length (inFlight p) \<le> k
     \<and> (\<forall>n. in_flight (take n (events p)) \<le> k)"

text \<open>What one iteration on the batch \<open>ids\<close> does to the variables and to the trace.\<close>

definition iteration ::
  "'id::linorder world \<Rightarrow> 'id config \<Rightarrow> 'id harvest \<Rightarrow> 'id list \<Rightarrow> 'id harvest \<Rightarrow> bool" where
  "iteration w cfg st ids st3 \<longleftrightarrow>
     next_batch w cfg (length (batches st)) (cursor st) (processed st) = Some ids \<and> ids \<noteq> []
     \<and> (dry_run cfg \<or> num_lt (Finite 0) (concurrency cfg))
     \<and> processed st3 = processed st + length ids
     \<and> cursor st3 = Some (last ids)
     \<and> cursor_file st3 = saveCursor w (last ids) (cursor_file st)
     \<and> batches st3 = batches st @ [ids]
     \<and> errors st3 = errors st
          + (if dry_run cfg then 0 else length (filter (\<lambda>i. outcome_of w i = Error) ids))
     \<and> found st3 = found st
          + (if dry_run cfg then 0 else length (filter (\<lambda>i. outcome_of w i = Found) ids))
     \<and> (\<exists>ev. trace st3 = trace st @ Query (cursor st) # ev @ [Save (last ids)]
            \<and> dispatched ev = (if dry_run cfg then [] else ids)
            \<and> mset (settled ev) = (if dry_run cfg then {#} else mset ids)
            \<and> mset (logged ev) = (if dry_run cfg then {#} else mset (map (\<lambda>i. (i, outcome_of w i)) ids))
            \<and> saved ev = [] \<and> queried ev = [])"

section \<open>Evaluation lemmas\<close>

lemmas char_defs = comma_def period_def dollar_def euro_def pound_def yen_def won_def

lemmas number_defs = Number_def trim_def isWhiteSpace_def NonDecimalIntegerLiteral_def
  radixVal_def hexVal_def StrUnsignedDecimalLiteral_def ExponentPart_def SignedInteger_def
  scale10_def isDigit_def toDouble_def

lemma filter_dropWhile_absorb:
  assumes "\<And>c. Q c \<Longrightarrow> \<not> P c"
  shows "filter P (dropWhile Q s) = filter P s"
  using assms by (induction s) auto

lemma filter_trim:
  assumes "\<And>c. isWhiteSpace c \<Longrightarrow> \<not> P c"
  shows "filter P (trim s) = filter P s"
proof -
  have "filter P (trim s) = rev (filter P (dropWhile isWhiteSpace (rev (dropWhile isWhiteSpace s))))"
    by (simp add: trim_def rev_filter)
  also have "\<dots> = rev (filter P (rev (dropWhile isWhiteSpace s)))"
    using assms by (simp add: filter_dropWhile_absorb)
  also have "\<dots> = filter P (dropWhile isWhiteSpace s)"
    by (simp add: rev_filter)
  also have "\<dots> = filter P s"
    using assms by (simp add: filter_dropWhile_absorb)
  finally show ?thesis .
qed

lemma trim_nonempty:
  assumes "c \<in> set s" and "\<not> isWhiteSpace c"
  shows "trim s \<noteq> []"
proof
  assume "trim s = []"
  then have "filter (\<lambda>c. \<not> isWhiteSpace c) (trim s) = []" by simp
  then have "filter (\<lambda>c. \<not> isWhiteSpace c) s = []" by (simp add: filter_trim)
  with assms show False by (auto simp: filter_empty_conv)
qed

lemma trim_all_white:
  assumes "list_all isWhiteSpace s"
  shows "trim s = []"
proof -
  have d: "dropWhile isWhiteSpace s = []"
    using assms by (induction s) simp_all
  show ?thesis unfolding trim_def by (simp only: d rev.simps dropWhile.simps)
qed

lemma period_not_white: "\<not> isWhiteSpace period"
  by (simp add: isWhiteSpace_def period_def)

lemma parseMoneyToNumber_cases:
  "parseMoneyToNumber raw = None \<or> (\<exists>q. parseMoneyToNumber raw = Some (Finite q))"
proof (cases "parseMoneyToNumber raw")
  case None
  then show ?thesis by simp
next
  case (Some n)
  then have "isFinite n"
    by (auto simp: parseMoneyToNumber_def Let_def split: option.splits if_splits)
  then obtain q where "n = Finite q" by (cases n) auto
  with Some show ?thesis by simp
qed

section \<open>Properties of the money parser\<close>

text \<open>
  C8. For every input (null or undefined, the empty string, white space, or any text)
  \<open>parseMoneyToNumber\<close> returns null or a finite number, never NaN or an infinity;
  \<open>"$1,234.56"\<close> parses to 1234.56; the empty string, white space alone and \<open>"abc"\<close> give null.
\<close>

theorem parseMoneyToNumber_finite_or_null:
  "(parseMoneyToNumber raw = None \<or> (\<exists>q. parseMoneyToNumber raw = Some (Finite q)))
   \<and> parseMoneyToNumber (Some (js ''$1,234.56'')) = Some (Finite (123456 / 100))
   \<and> parseMoneyToNumber None = None
   \<and> parseMoneyToNumber (Some []) = None
   \<and> parseMoneyToNumber (Some (js ''abc'')) = None
   \<and> (list_all isWhiteSpace w \<longrightarrow> parseMoneyToNumber (Some w) = None)"
proof -
  have 1: "parseMoneyToNumber (Some (js ''$1,234.56'')) = Some (Finite (123456 / 100))"
    by (simp add: parseMoneyToNumber_def js_def isStripped_def char_defs number_defs Let_def)
  have 2: "parseMoneyToNumber None = None"
    by (simp add: parseMoneyToNumber_def)
  have 3: "parseMoneyToNumber (Some []) = None"
    by (simp add: parseMoneyToNumber_def)
  have 4: "parseMoneyToNumber (Some (js ''abc'')) = None"
    by (simp add: parseMoneyToNumber_def js_def isStripped_def char_defs number_defs Let_def)
  have 5: "list_all isWhiteSpace w \<longrightarrow> parseMoneyToNumber (Some w) = None"
    by (simp add: parseMoneyToNumber_def trim_all_white)
  from parseMoneyToNumber_cases [of raw] 1 2 3 4 5 show ?thesis by blast
qed

theorem parseMoneyToNumber_finite_or_null_witness:
  "list_all isWhiteSpace (js ''  '')
   \<and> parseMoneyToNumber (Some (js ''  '')) = None
   \<and> parseMoneyToNumber (Some (js ''12.5'')) = Some (Finite (25 / 2))"
proof -
  have w: "list_all isWhiteSpace (js ''  '')"
    by (simp add: js_def isWhiteSpace_def)
  have v: "parseMoneyToNumber (Some (js ''12.5'')) = Some (Finite (25 / 2))"
    by (simp add: parseMoneyToNumber_def js_def isStripped_def char_defs number_defs Let_def)
  from parseMoneyToNumber_finite_or_null [of "Some (js ''12.5'')" "js ''  ''"] w v
  show ?thesis by blast
qed

text \<open>
  A text made of stripped characters only reaches \<open>Number\<close> as the empty string, which
  is 0: a lone currency sign parses to 0, not to null.
\<close>

lemma parseMoneyToNumber_symbol_only:
  "parseMoneyToNumber (Some (js ''$'')) = Some (Finite 0)"
  by (simp add: parseMoneyToNumber_def js_def isStripped_def char_defs number_defs Let_def)

text \<open>
  The decimal-comma branch is dead: whatever the input, the string tested for a comma has
  none left.
\<close>

lemma decimal_comma_branch_dead: "comma \<notin> set (filter (\<lambda>c. \<not> isStripped c) s)"
  by (simp add: isStripped_def)

text \<open>
  C1. The rule for a comma without a period is the one that the comment above the test
  states, and the function does not follow it: the text 3,50 holds a comma and no period,
  and it parses to 350, not to 3.5, because the first \<open>replace\<close> has already deleted every
  comma. For the same reason the text 1.234,56 followed by a space and the euro sign parses
  to 1.23456, not to 1234.56.
\<close>

theorem parseMoneyToNumber_decimal_comma_lost:
  "comma \<in> set (js ''3,50'') \<and> period \<notin> set (js ''3,50'')
   \<and> parseMoneyToNumber (Some (js ''3,50'')) = Some (Finite 350)
   \<and> parseMoneyToNumber (Some (js ''3,50'')) \<noteq> Some (Finite (35 / 10))
   \<and> parseMoneyToNumber (Some (js ''1.234,56 '' @ [euro])) = Some (Finite (123456 / 100000))
   \<and> parseMoneyToNumber (Some (js ''1.234,56 '' @ [euro])) \<noteq> Some (Finite (123456 / 100))"
  by (simp add: parseMoneyToNumber_def js_def isStripped_def char_defs number_defs Let_def)

section \<open>Properties of the look-back window\<close>

text \<open>
  C9. For every number \<open>x\<close>, \<open>clampDays x\<close> lies in the inclusive range from 1 to 365;
  \<open>clampDays(-5)\<close> is 1 and \<open>clampDays(9999)\<close> is 365; every non-finite input (NaN, either
  infinity) gives the default 90, and so does a request without a \<open>days\<close> parameter.
\<close>

theorem clampDays_range:
  "(\<exists>q. clampDays x = Finite q \<and> 1 \<le> q \<and> q \<le> 365)
   \<and> clampDays (Finite (- 5)) = Finite 1
   \<and> clampDays (Finite 9999) = Finite 365
   \<and> (\<not> isFinite x \<longrightarrow> clampDays x = Finite 90)
   \<and> requestDays None = Finite 90"
proof -
  have 1: "\<exists>q. clampDays x = Finite q \<and> 1 \<le> q \<and> q \<le> 365"
    by (cases x) (simp_all add: clampDays_def)
  have 2: "clampDays (Finite (- 5)) = Finite 1" "clampDays (Finite 9999) = Finite 365"
    by (simp_all add: clampDays_def)
  have 3: "\<not> isFinite x \<longrightarrow> clampDays x = Finite 90"
    by (cases x) (simp_all add: clampDays_def)
  have 4: "requestDays None = Finite 90"
    by (simp add: requestDays_def clampDays_def js_def number_defs char_defs Let_def)
  from 1 2 3 4 show ?thesis by blast
qed

theorem clampDays_range_witness:
  "\<not> isFinite NaN \<and> clampDays NaN = Finite 90
   \<and> (\<exists>q. clampDays NaN = Finite q \<and> 1 \<le> q \<and> q \<le> 365)"
  using clampDays_range [of NaN] by simp

section \<open>Properties of the FX rates\<close>

lemma getFx_only_usdToEur:
  assumes "envNumber (FX_USD_EUR e) = Finite a" and "0 < a"
    and "\<not> (isFinite (envNumber (FX_EUR_USD e)) \<and> num_pos (envNumber (FX_EUR_USD e)))"
  shows "getFx e = \<lparr>usdToEur = Some (Finite a), eurToUsd = Some (toDouble (1 / a))\<rparr>"
  using assms by (auto simp: getFx_def Let_def)

lemma getFx_only_eurToUsd:
  assumes "envNumber (FX_EUR_USD e) = Finite b" and "0 < b"
    and "\<not> (isFinite (envNumber (FX_USD_EUR e)) \<and> num_pos (envNumber (FX_USD_EUR e)))"
  shows "getFx e = \<lparr>usdToEur = Some (toDouble (1 / b)), eurToUsd = Some (Finite b)\<rparr>"
  using assms by (auto simp: getFx_def Let_def)

lemma getFx_both_valid:
  assumes "envNumber (FX_USD_EUR e) = Finite a" and "0 < a"
    and "envNumber (FX_EUR_USD e) = Finite b" and "0 < b"
  shows "getFx e = \<lparr>usdToEur = Some (toDouble (1 / b)), eurToUsd = Some (Finite b)\<rparr>"
  using assms by (auto simp: getFx_def Let_def)

lemma getFx_neither:
  assumes "\<not> (isFinite (envNumber (FX_USD_EUR e)) \<and> num_pos (envNumber (FX_USD_EUR e)))"
    and "\<not> (isFinite (envNumber (FX_EUR_USD e)) \<and> num_pos (envNumber (FX_EUR_USD e)))"
  shows "getFx e = \<lparr>usdToEur = None, eurToUsd = None\<rparr>"
  using assms by (auto simp: getFx_def Let_def)

text \<open>
  C2. With only \<open>FX_USD_EUR = "0.92"\<close> configured, \<open>eurToUsd\<close> is \<open>1 / 0.92\<close>, as the claim
  says. With both directions configured (0.92 and 1.10) the second assignment overwrites
  both fields: \<open>usdToEur\<close> is \<open>1 / 1.10\<close>, not the configured 0.92.
\<close>

theorem getFx_both_configured_overrides:
  "getFx \<lparr>FX_USD_EUR = Some (js ''0.92''), FX_EUR_USD = None\<rparr>
     = \<lparr>usdToEur = Some (Finite (92 / 100)), eurToUsd = Some (Finite (1 / (92 / 100)))\<rparr>
   \<and> getFx \<lparr>FX_USD_EUR = Some (js ''0.92''), FX_EUR_USD = Some (js ''1.10'')\<rparr>
     = \<lparr>usdToEur = Some (Finite (1 / (110 / 100))), eurToUsd = Some (Finite (110 / 100))\<rparr>
   \<and> usdToEur (getFx \<lparr>FX_USD_EUR = Some (js ''0.92''), FX_EUR_USD = Some (js ''1.10'')\<rparr>)
     \<noteq> Some (Finite (92 / 100))"
  by (simp add: getFx_def envNumber_def js_def char_defs number_defs Let_def)

section \<open>Properties of conversion and formatting\<close>

lemma convert_None_iff:
  "convert e n from to = None \<longleftrightarrow>
     from \<noteq> to \<and> \<not> rate_usable (if from = USD then usdToEur (getFx e) else eurToUsd (getFx e))"
  by (cases "from"; cases to)
     (auto simp: convert_def Let_def rate_usable_def split: option.splits)

text \<open>
  C7. \<open>maybeFormat\<close> returns null exactly when the raw text does not parse as money. When
  it parses to \<open>n\<close>, the result is a formatted string: of \<open>n\<close> in the source currency when
  the display currency is NATIVE or the source currency; of the converted amount in the
  display currency when \<open>convert\<close> gives one; and of \<open>n\<close> in the source currency when
  \<open>convert\<close> gives null, which it does exactly when the rate of the requested direction is
  not usable.
\<close>

theorem maybeFormat_null_iff_unparsed:
  "(maybeFormat fmt e valueText source display = None \<longleftrightarrow> parseMoneyToNumber valueText = None)
   \<and> (\<forall>n. parseMoneyToNumber valueText = Some n \<longrightarrow>
        (display = NATIVE \<or> display = Cur source \<longrightarrow>
           maybeFormat fmt e valueText source display = Some (fmt n source))
      \<and> (\<forall>d c. display = Cur d \<and> d \<noteq> source \<and> convert e n source d = Some c \<longrightarrow>
           maybeFormat fmt e valueText source display = Some (fmt c d))
      \<and> (\<forall>d. display = Cur d \<and> d \<noteq> source \<and> convert e n source d = None \<longrightarrow>
           maybeFormat fmt e valueText source display = Some (fmt n source))
      \<and> (\<forall>d. display = Cur d \<and> d \<noteq> source \<and>
              \<not> rate_usable (if source = USD then usdToEur (getFx e) else eurToUsd (getFx e)) \<longrightarrow>
           maybeFormat fmt e valueText source display = Some (fmt n source))
      \<and> (\<forall>d r. display = Cur d \<and> d \<noteq> source \<and>
              (if source = USD then usdToEur (getFx e) else eurToUsd (getFx e)) = Some r \<and>
              rate_usable (Some r) \<longrightarrow>
           maybeFormat fmt e valueText source display = Some (fmt (num_mul n r) d)))"
proof -
  have 1: "maybeFormat fmt e valueText source display = None \<longleftrightarrow> parseMoneyToNumber valueText = None"
    by (simp add: maybeFormat_def split: option.splits DisplayCurrency.splits)
  have 2: "display = NATIVE \<or> display = Cur source \<longrightarrow>
           maybeFormat fmt e valueText source display = Some (fmt n source)"
    if "parseMoneyToNumber valueText = Some n" for n
    using that by (auto simp: maybeFormat_def)
  have 3: "display = Cur d \<and> d \<noteq> source \<and> convert e n source d = Some c \<longrightarrow>
           maybeFormat fmt e valueText source display = Some (fmt c d)"
    if "parseMoneyToNumber valueText = Some n" for n d c
    using that by (auto simp: maybeFormat_def)
  have 4: "display = Cur d \<and> d \<noteq> source \<and> convert e n source d = None \<longrightarrow>
           maybeFormat fmt e valueText source display = Some (fmt n source)"
    if "parseMoneyToNumber valueText = Some n" for n d
    using that by (auto simp: maybeFormat_def)
  have 5: "display = Cur d \<and> d \<noteq> source \<and>
              \<not> rate_usable (if source = USD then usdToEur (getFx e) else eurToUsd (getFx e)) \<longrightarrow>
           maybeFormat fmt e valueText source display = Some (fmt n source)"
    if p: "parseMoneyToNumber valueText = Some n" for n d
  proof (intro impI, elim conjE)
    assume a: "display = Cur d" "d \<noteq> source"
      "\<not> rate_usable (if source = USD then usdToEur (getFx e) else eurToUsd (getFx e))"
    then have "convert e n source d = None"
      by (simp add: convert_None_iff)
    with 4 [OF p, of d] a show "maybeFormat fmt e valueText source display = Some (fmt n source)"
      by simp
  qed
  have 6: "display = Cur d \<and> d \<noteq> source \<and>
              (if source = USD then usdToEur (getFx e) else eurToUsd (getFx e)) = Some r \<and>
              rate_usable (Some r) \<longrightarrow>
           maybeFormat fmt e valueText source display = Some (fmt (num_mul n r) d)"
    if p: "parseMoneyToNumber valueText = Some n" for n d r
  proof (intro impI, elim conjE)
    assume a: "display = Cur d" "d \<noteq> source"
      "(if source = USD then usdToEur (getFx e) else eurToUsd (getFx e)) = Some r"
      "rate_usable (Some r)"
    then have "convert e n source d = Some (num_mul n r)"
      by (cases source; cases d) (auto simp: convert_def Let_def)
    with 3 [OF p, of d "num_mul n r"] a
    show "maybeFormat fmt e valueText source display = Some (fmt (num_mul n r) d)"
      by simp
  qed
  from 1 2 3 4 5 6 show ?thesis by blast
qed

theorem maybeFormat_null_iff_unparsed_witness:
  "parseMoneyToNumber (Some (js ''$3.50'')) = Some (Finite (7 / 2))
   \<and> \<not> rate_usable (usdToEur (getFx \<lparr>FX_USD_EUR = None, FX_EUR_USD = None\<rparr>))
   \<and> maybeFormat Pair \<lparr>FX_USD_EUR = None, FX_EUR_USD = None\<rparr> (Some (js ''$3.50'')) USD (Cur EUR)
       = Some (Finite (7 / 2), USD)
   \<and> maybeFormat Pair \<lparr>FX_USD_EUR = None, FX_EUR_USD = None\<rparr> (Some (js ''$3.50'')) USD NATIVE
       = Some (Finite (7 / 2), USD)
   \<and> usdToEur (getFx \<lparr>FX_USD_EUR = Some (js ''0.5''), FX_EUR_USD = None\<rparr>) = Some (Finite (1 / 2))
   \<and> rate_usable (Some (Finite (1 / 2)))
   \<and> maybeFormat Pair \<lparr>FX_USD_EUR = Some (js ''0.5''), FX_EUR_USD = None\<rparr>
         (Some (js ''$3.50'')) USD (Cur EUR)
       = Some (num_mul (Finite (7 / 2)) (Finite (1 / 2)), EUR)
   \<and> num_mul (Finite (7 / 2)) (Finite (1 / 2)) = Finite (7 / 4)"
proof -
  let ?e = "\<lparr>FX_USD_EUR = None, FX_EUR_USD = None\<rparr>"
  have p: "parseMoneyToNumber (Some (js ''$3.50'')) = Some (Finite (7 / 2))"
    by (simp add: parseMoneyToNumber_def js_def isStripped_def char_defs number_defs Let_def)
  have r: "\<not> rate_usable (usdToEur (getFx ?e))"
    by (simp add: getFx_def envNumber_def rate_usable_def Let_def)
  from maybeFormat_null_iff_unparsed [of Pair ?e "Some (js ''$3.50'')" USD "Cur EUR"] p r
  have a: "maybeFormat Pair ?e (Some (js ''$3.50'')) USD (Cur EUR) = Some (Finite (7 / 2), USD)"
    by simp
  from maybeFormat_null_iff_unparsed [of Pair ?e "Some (js ''$3.50'')" USD NATIVE] p
  have b: "maybeFormat Pair ?e (Some (js ''$3.50'')) USD NATIVE = Some (Finite (7 / 2), USD)"
    by simp
  let ?h = "\<lparr>FX_USD_EUR = Some (js ''0.5''), FX_EUR_USD = None\<rparr>"
  have g: "usdToEur (getFx ?h) = Some (Finite (1 / 2))"
    by (simp add: getFx_def envNumber_def js_def char_defs number_defs Let_def)
  have u: "rate_usable (Some (Finite (1 / 2)))"
    by (simp add: rate_usable_def)
  from maybeFormat_null_iff_unparsed [of Pair ?h "Some (js ''$3.50'')" USD "Cur EUR"] p g u
  have c: "maybeFormat Pair ?h (Some (js ''$3.50'')) USD (Cur EUR)
             = Some (num_mul (Finite (7 / 2)) (Finite (1 / 2)), EUR)"
    by simp
  have m: "num_mul (Finite (7 / 2)) (Finite (1 / 2)) = Finite (7 / 4)"
    by (simp add: number_defs Let_def)
  from p r a b g u c m show ?thesis by blast
qed

section \<open>The request pool: invariants\<close>

lemma dispatched_append [simp]: "dispatched (a @ b) = dispatched a @ dispatched b"
  by (simp add: dispatched_def)

lemma settled_append [simp]: "settled (a @ b) = settled a @ settled b"
  by (simp add: settled_def)

lemma saved_append [simp]: "saved (a @ b) = saved a @ saved b"
  by (simp add: saved_def)

lemma logged_append [simp]: "logged (a @ b) = logged a @ logged b"
  by (simp add: logged_def)

lemma queried_append [simp]: "queried (a @ b) = queried a @ queried b"
  by (simp add: queried_def)

lemma reading_Nil [simp]:
  "dispatched [] = []" "settled [] = []" "saved [] = []" "logged [] = []" "queried [] = []"
  by (simp_all add: dispatched_def settled_def saved_def logged_def queried_def)

lemma reading_Cons [simp]:
  "dispatched (e # tr) = dispatch_of e @ dispatched tr"
  "settled (e # tr) = settle_of e @ settled tr"
  "saved (e # tr) = save_of e @ saved tr"
  "logged (e # tr) = logged_of e @ logged tr"
  "queried (e # tr) = query_of e @ queried tr"
  by (simp_all add: dispatched_def settled_def saved_def logged_def queried_def)

lemma pool_inv_init: "pool_inv w ids pool_init"
  by (simp add: pool_inv_def pool_init_def)

lemma launch_while_inv:
  "pool_inv w ids p \<Longrightarrow> pool_inv w ids (launch_while ids c p)"
proof (induction ids c p rule: launch_while.induct)
  case (1 ids c p)
  show ?case
  proof (cases "num_lt (Finite (of_nat (length (inFlight p)))) c \<and> idx p < length ids")
    case True
    let ?p = "p\<lparr>idx := Suc (idx p), inFlight := inFlight p @ [ids ! idx p],
                events := events p @ [Dispatch (ids ! idx p)]\<rparr>"
    have "pool_inv w ids ?p"
      using "1.prems" True by (simp add: pool_inv_def take_Suc_conv_app_nth)
    with "1.IH" [OF True] show ?thesis
      by (simp add: launch_while_step [OF True])
  next
    case False
    with "1.prems" show ?thesis by (simp add: launch_while_stop)
  qed
qed

lemma launch_inv: "pool_inv w ids p \<Longrightarrow> pool_inv w ids (launch ids c p)"
  by (auto simp: launch_def launch_while_inv) (simp add: pool_inv_def)

lemma mset_remove_nth:
  "k < length xs \<Longrightarrow> mset (take k xs @ drop (Suc k) xs) + {#xs ! k#} = mset xs"
proof -
  assume "k < length xs"
  then have "xs = take k xs @ xs ! k # drop (Suc k) xs" by (rule id_take_nth_drop)
  then have "mset xs = mset (take k xs @ xs ! k # drop (Suc k) xs)" by simp
  then show ?thesis by simp
qed

lemma settle_inv:
  assumes "pool_inv w ids p" and "k < length (inFlight p)"
  shows "pool_inv w ids (settle w k p)"
proof -
  let ?F = "inFlight p"
  let ?r = "(?F ! k, fetchOne (respond w (?F ! k)))"
  have nr: "\<not> resolved p" using assms by (auto simp: pool_inv_def)
  have m: "mset (take k ?F @ drop (Suc k) ?F) + {#?F ! k#} = mset ?F"
    using assms(2) by (rule mset_remove_nth)
  have "mset (take k ?F @ drop (Suc k) ?F) + mset (map fst (results p @ [?r]))
          = (mset (take k ?F @ drop (Suc k) ?F) + {#?F ! k#}) + mset (map fst (results p))"
    by simp
  also have "\<dots> = mset ?F + mset (map fst (results p))"
    by (simp only: m)
  also have "\<dots> = mset (take (idx p) ids)"
    using assms(1) by (simp add: pool_inv_def)
  finally have 1: "mset (take k ?F @ drop (Suc k) ?F) + mset (map fst (results p @ [?r]))
                     = mset (take (idx p) ids)" .
  have 2: "list_all (\<lambda>r. snd r = fetchOne (respond w (fst r))) (results p @ [?r])"
    using assms(1) by (simp add: pool_inv_def)
  have 3: "idx p \<le> length ids" "dispatched (events p @ [Settle (?F ! k)]) = take (idx p) ids"
    "settled (events p @ [Settle (?F ! k)]) = map fst (results p @ [?r])"
    "saved (events p @ [Settle (?F ! k)]) = []" "logged (events p @ [Settle (?F ! k)]) = []"
    "queried (events p @ [Settle (?F ! k)]) = []"
    using assms(1) by (simp_all add: pool_inv_def)
  show ?thesis
    unfolding pool_inv_def settle_def using 1 2 3 nr by simp
qed

lemma pool_loop_inv:
  "pool_inv w ids p \<Longrightarrow> pool_loop w ids c p = Some q \<Longrightarrow> pool_inv w ids q \<and> resolved q"
proof (induction w ids c p rule: pool_loop.induct)
  case (1 w ids c p)
  show ?case
  proof (cases "resolved p")
    case True
    with "1.prems" show ?thesis by (simp add: pool_loop.simps)
  next
    case False
    show ?thesis
    proof (cases "inFlight p = []")
      case True
      with False "1.prems" show ?thesis by (simp add: pool_loop.simps)
    next
      case ne: False
      let ?k = "pick w (inFlight p) mod length (inFlight p)"
      let ?p = "launch ids c (settle w ?k p)"
      have k: "?k < length (inFlight p)" using ne by simp
      have "pool_inv w ids ?p"
        using "1.prems"(1) k by (intro launch_inv settle_inv)
      moreover have "pool_loop w ids c ?p = Some q"
        using "1.prems"(2) False ne by (subst (asm) pool_loop.simps) simp
      ultimately show ?thesis
        using "1.IH" [OF False ne] by blast
    qed
  qed
qed

lemma results_canonical:
  "list_all (\<lambda>r. snd r = f (fst r)) rs \<Longrightarrow> map (\<lambda>i. (i, f i)) (map fst rs) = rs"
  by (induction rs) auto

text \<open>
  When \<open>poolRun\<close> resolves, every id of the batch was sent once, in order, every request has
  settled, and the results are those of the ids in some order.
\<close>

lemma pool_final_Some:
  assumes "pool_final w ids c = Some q"
  shows "dispatched (events q) = ids"
    and "mset (settled (events q)) = mset ids"
    and "mset (results q) = mset (map (\<lambda>i. (i, fetchOne (respond w i))) ids)"
    and "saved (events q) = []" and "logged (events q) = []" and "queried (events q) = []"
proof -
  have inv: "pool_inv w ids q" and r: "resolved q"
    using pool_loop_inv [OF launch_inv [OF pool_inv_init]] assms
    unfolding pool_final_def by blast+
  from inv r have i: "idx q = length ids" and f: "inFlight q = []"
    by (auto simp: pool_inv_def)
  from inv i show "dispatched (events q) = ids" by (simp add: pool_inv_def)
  from inv i f have m: "mset (map fst (results q)) = mset ids" by (simp add: pool_inv_def)
  with inv show "mset (settled (events q)) = mset ids" by (simp add: pool_inv_def)
  have "list_all (\<lambda>r. snd r = fetchOne (respond w (fst r))) (results q)"
    using inv by (simp add: pool_inv_def)
  then have c: "map (\<lambda>i. (i, fetchOne (respond w i))) (map fst (results q)) = results q"
    by (rule results_canonical)
  have "mset (results q) = mset (map (\<lambda>i. (i, fetchOne (respond w i))) (map fst (results q)))"
    by (simp only: c)
  also have "\<dots> = image_mset (\<lambda>i. (i, fetchOne (respond w i))) (mset (map fst (results q)))"
    by (simp only: mset_map)
  also have "\<dots> = image_mset (\<lambda>i. (i, fetchOne (respond w i))) (mset ids)"
    by (simp only: m)
  also have "\<dots> = mset (map (\<lambda>i. (i, fetchOne (respond w i))) ids)"
    by (simp only: mset_map)
  finally show "mset (results q) = mset (map (\<lambda>i. (i, fetchOne (respond w i))) ids)" .
  from inv show "saved (events q) = []" "logged (events q) = []" "queried (events q) = []"
    by (simp_all add: pool_inv_def)
qed

lemma launch_while_grows:
  "length (inFlight p) \<le> length (inFlight (launch_while ids c p))"
proof (induction ids c p rule: launch_while.induct)
  case (1 ids c p)
  show ?case
  proof (cases "num_lt (Finite (of_nat (length (inFlight p)))) c \<and> idx p < length ids")
    case True
    with "1.IH" [OF True] show ?thesis
      by (simp add: launch_while_step [OF True])
  next
    case False
    then show ?thesis by (simp add: launch_while_stop)
  qed
qed

lemma launch_live:
  assumes "num_lt (Finite 0) c"
  shows "resolved (launch ids c p) \<or> inFlight (launch ids c p) \<noteq> []"
proof (cases "length ids \<le> idx p \<and> inFlight p = []")
  case True
  then show ?thesis by (simp add: launch_def)
next
  case False
  show ?thesis
  proof (cases "inFlight p = []")
    case True
    with False have lt: "idx p < length ids" by simp
    let ?p = "p\<lparr>idx := Suc (idx p), inFlight := inFlight p @ [ids ! idx p],
                events := events p @ [Dispatch (ids ! idx p)]\<rparr>"
    have c: "num_lt (Finite (of_nat (length (inFlight p)))) c \<and> idx p < length ids"
      using True lt assms by simp
    have "length (inFlight ?p) \<le> length (inFlight (launch_while ids c ?p))"
      by (rule launch_while_grows)
    then have "inFlight (launch_while ids c p) \<noteq> []"
      by (auto simp: launch_while_step [OF c])
    with False show ?thesis by (simp add: launch_def)
  next
    case ne: False
    have "length (inFlight p) \<le> length (inFlight (launch_while ids c p))"
      by (rule launch_while_grows)
    with ne have "inFlight (launch_while ids c p) \<noteq> []" by auto
    with False show ?thesis by (simp add: launch_def)
  qed
qed

lemma pool_loop_returns:
  "num_lt (Finite 0) c \<Longrightarrow> resolved p \<or> inFlight p \<noteq> []
   \<Longrightarrow> \<exists>q. pool_loop w ids c p = Some q"
proof (induction w ids c p rule: pool_loop.induct)
  case (1 w ids c p)
  show ?case
  proof (cases "resolved p")
    case True
    then show ?thesis by (simp add: pool_loop.simps)
  next
    case False
    with "1.prems" have ne: "inFlight p \<noteq> []" by simp
    let ?p = "launch ids c (settle w (pick w (inFlight p) mod length (inFlight p)) p)"
    have "resolved ?p \<or> inFlight ?p \<noteq> []"
      using "1.prems"(1) by (rule launch_live)
    from "1.IH" [OF False ne "1.prems"(1) this] obtain q where "pool_loop w ids c ?p = Some q" ..
    then show ?thesis using False ne by (subst pool_loop.simps) simp
  qed
qed

text \<open>With a positive concurrency \<open>poolRun\<close> resolves, whatever the ids and the answers.\<close>

lemma pool_final_returns:
  assumes "num_lt (Finite 0) c"
  shows "\<exists>q. pool_final w ids c = Some q"
  unfolding pool_final_def
  using assms launch_live [OF assms] by (rule pool_loop_returns)

section \<open>The main loop: one iteration\<close>

lemma handle_fields:
  "processed (handle r st) = processed st
   \<and> cursor (handle r st) = cursor st
   \<and> cursor_file (handle r st) = cursor_file st
   \<and> batches (handle r st) = batches st
   \<and> trace (handle r st) = trace st @ [Logged (fst r) (classify (snd r))]
   \<and> errors (handle r st) = errors st + (if classify (snd r) = Error then 1 else 0)
   \<and> found (handle r st) = found st + (if classify (snd r) = Found then 1 else 0)"
  by (cases "classify (snd r)") (simp_all add: handle_def)

lemma fold_handle:
  "processed (fold handle rs st) = processed st
   \<and> cursor (fold handle rs st) = cursor st
   \<and> cursor_file (fold handle rs st) = cursor_file st
   \<and> batches (fold handle rs st) = batches st
   \<and> trace (fold handle rs st) = trace st @ map (\<lambda>r. Logged (fst r) (classify (snd r))) rs
   \<and> errors (fold handle rs st) = errors st + size (filter_mset (\<lambda>r. classify (snd r) = Error) (mset rs))
   \<and> found (fold handle rs st) = found st + size (filter_mset (\<lambda>r. classify (snd r) = Found) (mset rs))"
proof (induction rs arbitrary: st)
  case Nil
  show ?case by simp
next
  case (Cons r rs)
  have "fold handle (r # rs) st = fold handle rs (handle r st)" by simp
  with Cons.IH [of "handle r st"] handle_fields [of r st] show ?case
    by simp
qed

lemma trace_of_logs [simp]:
  "dispatched (map (\<lambda>r. Logged (fst r) (classify (snd r))) rs) = []"
  "settled (map (\<lambda>r. Logged (fst r) (classify (snd r))) rs) = []"
  "saved (map (\<lambda>r. Logged (fst r) (classify (snd r))) rs) = []"
  "queried (map (\<lambda>r. Logged (fst r) (classify (snd r))) rs) = []"
  "logged (map (\<lambda>r. Logged (fst r) (classify (snd r))) rs) = map (\<lambda>r. (fst r, classify (snd r))) rs"
  by (induction rs) simp_all

text \<open>
  The requests of one batch outside a dry run: every id is sent once, in order, every
  request settles, one line is logged for each id with the class of its result, and the
  two counters grow by the number of ids of each class. Nothing else changes.
\<close>

lemma dispatch_batch_Some:
  assumes "\<not> dry_run cfg" and "dispatch_batch w cfg ids st = Some st2"
  shows "processed st2 = processed st" and "cursor st2 = cursor st"
    and "cursor_file st2 = cursor_file st" and "batches st2 = batches st"
    and "\<exists>ev. trace st2 = trace st @ ev \<and> dispatched ev = ids \<and> mset (settled ev) = mset ids
           \<and> mset (logged ev) = mset (map (\<lambda>i. (i, outcome_of w i)) ids)
           \<and> saved ev = [] \<and> queried ev = []"
    and "errors st2 = errors st + length (filter (\<lambda>i. outcome_of w i = Error) ids)"
    and "found st2 = found st + length (filter (\<lambda>i. outcome_of w i = Found) ids)"
proof -
  from assms obtain q where q: "pool_final w ids (concurrency cfg) = Some q"
    and st2: "st2 = fold handle (results q) (st\<lparr>trace := trace st @ events q\<rparr>)"
    by (auto simp: dispatch_batch_def split: option.splits)
  note pf = pool_final_Some [OF q]
  note fh = fold_handle [of "results q" "st\<lparr>trace := trace st @ events q\<rparr>"]
  let ?f = "\<lambda>i. (i, fetchOne (respond w i))"
  show "processed st2 = processed st" "cursor st2 = cursor st"
    "cursor_file st2 = cursor_file st" "batches st2 = batches st"
    using fh st2 by simp_all
  have lg: "mset (map (\<lambda>r. (fst r, classify (snd r))) (results q))
              = mset (map (\<lambda>i. (i, outcome_of w i)) ids)"
  proof -
    have "mset (map (\<lambda>r. (fst r, classify (snd r))) (results q))
            = image_mset (\<lambda>r. (fst r, classify (snd r))) (mset (results q))"
      by (simp only: mset_map)
    also have "\<dots> = image_mset (\<lambda>r. (fst r, classify (snd r))) (mset (map ?f ids))"
      by (simp only: pf(3))
    also have "\<dots> = mset (map (\<lambda>i. (i, outcome_of w i)) ids)"
      by (simp add: outcome_of_def image_mset.compositionality comp_def)
    finally show ?thesis .
  qed
  let ?ev = "events q @ map (\<lambda>r. Logged (fst r) (classify (snd r))) (results q)"
  have "trace st2 = trace st @ ?ev" using fh st2 by simp
  moreover have "dispatched ?ev = ids" "mset (settled ?ev) = mset ids" "saved ?ev = []" "queried ?ev = []"
    using pf by simp_all
  moreover have "mset (logged ?ev) = mset (map (\<lambda>i. (i, outcome_of w i)) ids)"
    using pf(5) lg by simp
  ultimately show "\<exists>ev. trace st2 = trace st @ ev \<and> dispatched ev = ids \<and> mset (settled ev) = mset ids
           \<and> mset (logged ev) = mset (map (\<lambda>i. (i, outcome_of w i)) ids)
           \<and> saved ev = [] \<and> queried ev = []"
    by blast
  have cnt: "size (filter_mset (\<lambda>r. classify (snd r) = out) (mset (results q)))
               = length (filter (\<lambda>i. outcome_of w i = out) ids)" for out
  proof -
    have "size (filter_mset (\<lambda>r. classify (snd r) = out) (mset (results q)))
            = size (filter_mset (\<lambda>r. classify (snd r) = out) (mset (map ?f ids)))"
      by (simp only: pf(3))
    also have "\<dots> = length (filter (\<lambda>r. classify (snd r) = out) (map ?f ids))"
      by (simp only: mset_filter [symmetric] size_mset)
    also have "\<dots> = length (filter (\<lambda>i. outcome_of w i = out) ids)"
      by (simp add: filter_map comp_def outcome_of_def)
    finally show ?thesis .
  qed
  show "errors st2 = errors st + length (filter (\<lambda>i. outcome_of w i = Error) ids)"
    using fh st2 cnt [of Error] by simp
  show "found st2 = found st + length (filter (\<lambda>i. outcome_of w i = Found) ids)"
    using fh st2 cnt [of Found] by simp
qed

lemma dispatch_batch_dry: "dry_run cfg \<Longrightarrow> dispatch_batch w cfg ids st = Some st"
  by (simp add: dispatch_batch_def)

lemma dispatch_batch_returns:
  assumes "dry_run cfg \<or> num_lt (Finite 0) (concurrency cfg)"
  shows "\<exists>st2. dispatch_batch w cfg ids st = Some st2"
proof (cases "dry_run cfg")
  case True
  then show ?thesis by (simp add: dispatch_batch_def)
next
  case False
  with assms obtain q where "pool_final w ids (concurrency cfg) = Some q"
    using pool_final_returns by blast
  with False show ?thesis by (simp add: dispatch_batch_def)
qed

lemma pool_final_None:
  assumes "ids \<noteq> []" and "\<not> num_lt (Finite 0) c"
  shows "pool_final w ids c = None"
proof -
  have "launch_while ids c pool_init = (pool_init :: 'a pool)"
    by (rule launch_while_stop) (use assms(2) in \<open>simp add: pool_init_def\<close>)
  with assms(1) have "launch ids c pool_init = (pool_init :: 'a pool)"
    by (simp add: launch_def pool_init_def)
  then show ?thesis
    by (simp add: pool_final_def pool_loop.simps pool_init_def)
qed

lemma dispatch_batch_None:
  "ids \<noteq> [] \<Longrightarrow> \<not> dry_run cfg \<Longrightarrow> \<not> num_lt (Finite 0) (concurrency cfg)
   \<Longrightarrow> dispatch_batch w cfg ids st = None"
  by (simp add: dispatch_batch_def pool_final_None)

lemma dispatch_batch_None_iff:
  assumes "ids \<noteq> []"
  shows "dispatch_batch w cfg ids st = None
           \<longleftrightarrow> \<not> dry_run cfg \<and> \<not> num_lt (Finite 0) (concurrency cfg)"
proof
  assume n: "dispatch_batch w cfg ids st = None"
  show "\<not> dry_run cfg \<and> \<not> num_lt (Finite 0) (concurrency cfg)"
  proof (rule ccontr)
    assume "\<not> (\<not> dry_run cfg \<and> \<not> num_lt (Finite 0) (concurrency cfg))"
    then have "dry_run cfg \<or> num_lt (Finite 0) (concurrency cfg)" by blast
    from dispatch_batch_returns [OF this, of w ids st] n show False by simp
  qed
next
  assume "\<not> dry_run cfg \<and> \<not> num_lt (Finite 0) (concurrency cfg)"
  with assms show "dispatch_batch w cfg ids st = None"
    by (simp add: dispatch_batch_None)
qed

lemma slice0_Nil [simp]: "slice0 [] e = []"
  by (simp add: slice0_def)

lemma main_loop_unfold:
  "main_loop w cfg st =
     (let st1 = st\<lparr>trace := trace st @ [Query (cursor st)]\<rparr>
      in case next_batch w cfg (length (batches st)) (cursor st) (processed st) of
           None \<Rightarrow> (QueryRejected, st1)
         | Some ids \<Rightarrow>
             if ids = [] then (Completed, st1)
             else (case dispatch_batch w cfg ids st1 of
                     None \<Rightarrow> (NeverSettles, st1)
                   | Some st2 \<Rightarrow>
                       if limit_reached (limit cfg) (processed (advance w ids st2))
                       then (Completed, advance w ids st2)
                       else main_loop w cfg (advance w ids st2)))"
  by (subst main_loop.simps) (simp add: next_batch_def Let_def split: option.splits)
section \<open>The main loop: the whole run\<close>

lemma plan_rejected: "next_batch w cfg k c n = None \<Longrightarrow> plan w cfg k c n = ([], QueryRejected)"
  by (subst plan.simps) simp

lemma plan_stop: "next_batch w cfg k c n = Some [] \<Longrightarrow> plan w cfg k c n = ([], Completed)"
  by (subst plan.simps) simp

lemma plan_stall:
  "next_batch w cfg k c n = Some ids \<Longrightarrow> ids \<noteq> [] \<Longrightarrow> \<not> dry_run cfg
   \<Longrightarrow> \<not> num_lt (Finite 0) (concurrency cfg) \<Longrightarrow> plan w cfg k c n = ([], NeverSettles)"
  by (subst plan.simps) simp

lemma plan_last:
  "next_batch w cfg k c n = Some ids \<Longrightarrow> ids \<noteq> []
   \<Longrightarrow> dry_run cfg \<or> num_lt (Finite 0) (concurrency cfg)
   \<Longrightarrow> limit_reached (limit cfg) (n + length ids)
   \<Longrightarrow> plan w cfg k c n = ([ids], Completed)"
  by (subst plan.simps) auto

lemma plan_more:
  "next_batch w cfg k c n = Some ids \<Longrightarrow> ids \<noteq> []
   \<Longrightarrow> dry_run cfg \<or> num_lt (Finite 0) (concurrency cfg)
   \<Longrightarrow> \<not> limit_reached (limit cfg) (n + length ids)
   \<Longrightarrow> plan w cfg k c n
         = (ids # fst (plan w cfg (Suc k) (Some (last ids)) (n + length ids)),
            snd (plan w cfg (Suc k) (Some (last ids)) (n + length ids)))"
  by (subst plan.simps) (auto simp: Let_def)

lemma iteration_intro:
  assumes "next_batch w cfg (length (batches st)) (cursor st) (processed st) = Some ids"
    and "ids \<noteq> []"
    and d: "dispatch_batch w cfg ids (st\<lparr>trace := trace st @ [Query (cursor st)]\<rparr>) = Some st2"
  shows "iteration w cfg st ids (advance w ids st2)"
proof (cases "dry_run cfg")
  case True
  then have "st2 = st\<lparr>trace := trace st @ [Query (cursor st)]\<rparr>"
    using d by (simp add: dispatch_batch_def)
  then show ?thesis
    using assms(1,2) True by (simp add: iteration_def advance_def)
next
  case False
  have c: "num_lt (Finite 0) (concurrency cfg)"
  proof (rule ccontr)
    assume "\<not> num_lt (Finite 0) (concurrency cfg)"
    with assms(2) False
    have "dispatch_batch w cfg ids (st\<lparr>trace := trace st @ [Query (cursor st)]\<rparr>) = None"
      by (rule dispatch_batch_None)
    with d show False by simp
  qed
  note db = dispatch_batch_Some [OF False d]
  from db(5) obtain ev where ev: "trace st2 = trace st @ [Query (cursor st)] @ ev"
    "dispatched ev = ids" "mset (settled ev) = mset ids"
    "mset (logged ev) = mset (map (\<lambda>i. (i, outcome_of w i)) ids)" "saved ev = []" "queried ev = []"
    by auto
  have "\<exists>ev. trace (advance w ids st2) = trace st @ Query (cursor st) # ev @ [Save (last ids)]
            \<and> dispatched ev = ids \<and> mset (settled ev) = mset ids
            \<and> mset (logged ev) = mset (map (\<lambda>i. (i, outcome_of w i)) ids)
            \<and> saved ev = [] \<and> queried ev = []"
    using ev by (intro exI [of _ ev]) (simp add: advance_def)
  then show ?thesis
    using assms(1,2) False c db(1,2,3,4,6,7) by (simp add: iteration_def advance_def)
qed

text \<open>Induction over the iterations of a run.\<close>

lemma main_loop_induct [consumes 1, case_names rejected stop stall last more]:
  assumes run: "main_loop w cfg st = (e, st')"
    and rejected: "\<And>st. next_batch w cfg (length (batches st)) (cursor st) (processed st) = None
                 \<Longrightarrow> P st QueryRejected (st\<lparr>trace := trace st @ [Query (cursor st)]\<rparr>)"
    and stop: "\<And>st. next_batch w cfg (length (batches st)) (cursor st) (processed st) = Some []
                 \<Longrightarrow> P st Completed (st\<lparr>trace := trace st @ [Query (cursor st)]\<rparr>)"
    and stall: "\<And>st ids. next_batch w cfg (length (batches st)) (cursor st) (processed st) = Some ids
                 \<Longrightarrow> ids \<noteq> [] \<Longrightarrow> \<not> dry_run cfg \<Longrightarrow> \<not> num_lt (Finite 0) (concurrency cfg)
                 \<Longrightarrow> P st NeverSettles (st\<lparr>trace := trace st @ [Query (cursor st)]\<rparr>)"
    and last: "\<And>st ids st3. iteration w cfg st ids st3
                 \<Longrightarrow> limit_reached (limit cfg) (processed st + length ids) \<Longrightarrow> P st Completed st3"
    and more: "\<And>st ids st3 e st'. iteration w cfg st ids st3
                 \<Longrightarrow> \<not> limit_reached (limit cfg) (processed st + length ids)
                 \<Longrightarrow> main_loop w cfg st3 = (e, st') \<Longrightarrow> P st3 e st' \<Longrightarrow> P st e st'"
  shows "P st e st'"
  using assms
proof (induction w cfg st rule: main_loop.induct)
  case (1 w cfg st)
  note run = "1.prems"(1) and rejected = "1.prems"(2) and stop = "1.prems"(3)
    and stall = "1.prems"(4) and last = "1.prems"(5) and more = "1.prems"(6)
  let ?nb = "next_batch w cfg (length (batches st)) (cursor st) (processed st)"
  let ?st1 = "st\<lparr>trace := trace st @ [Query (cursor st)]\<rparr>"
  show ?case
  proof (cases ?nb)
    case None
    then have "main_loop w cfg st = (QueryRejected, ?st1)"
      by (subst main_loop_unfold) simp
    with run have "e = QueryRejected" "st' = ?st1" by simp_all
    then show ?thesis using rejected [OF None] by simp
  next
    case (Some ids)
    show ?thesis
    proof (cases "ids = []")
      case True
      with Some have "main_loop w cfg st = (Completed, ?st1)"
        by (subst main_loop_unfold) simp
      with run have "e = Completed" "st' = ?st1" by simp_all
      then show ?thesis using stop Some True by simp
    next
      case False
      from Some obtain toFetch
        where g: "getIdsPage w cfg (length (batches st)) (cursor st) (batch cfg) = Some toFetch"
          and i: "ids = slice0 toFetch (remainingCap (limit cfg) (processed st) (length toFetch))"
        by (auto simp: next_batch_def)
      from i False have tf: "toFetch \<noteq> []" by auto
      show ?thesis
      proof (cases "dispatch_batch w cfg ids ?st1")
        case None
        with Some False have "main_loop w cfg st = (NeverSettles, ?st1)"
          by (subst main_loop_unfold) simp
        with run have r: "e = NeverSettles" "st' = ?st1" by simp_all
        from None have "\<not> dry_run cfg \<and> \<not> num_lt (Finite 0) (concurrency cfg)"
          using dispatch_batch_None_iff [OF False] by blast
        then show ?thesis using stall [OF Some False] r by simp
      next
        case d: (Some st2)
        have it: "iteration w cfg st ids (advance w ids st2)"
          using Some False d by (rule iteration_intro)
        then have pr: "processed (advance w ids st2) = processed st + length ids"
          by (simp add: iteration_def)
        show ?thesis
        proof (cases "limit_reached (limit cfg) (processed st + length ids)")
          case True
          then have "main_loop w cfg st = (Completed, advance w ids st2)"
            using Some False d pr by (subst main_loop_unfold) simp
          with run have "e = Completed" "st' = advance w ids st2" by simp_all
          then show ?thesis using last [OF it True] by simp
        next
          case nl: False
          then have "main_loop w cfg st = main_loop w cfg (advance w ids st2)"
            using Some False d pr by (subst main_loop_unfold) simp
          with run have r: "main_loop w cfg (advance w ids st2) = (e, st')" by simp
          from nl pr have nl': "\<not> limit_reached (limit cfg) (processed (advance w ids st2))"
            by simp
          have "P (advance w ids st2) e st'"
            by (rule "1.IH" [OF refl g tf i False d nl' r rejected stop stall last more])
          then show ?thesis using more [OF it nl r] by simp
        qed
      qed
    qed
  qed
qed

lemma split_saves_no_save: "saved ev = [] \<Longrightarrow> split_saves acc ev = []"
proof (induction ev arbitrary: acc)
  case Nil
  show ?case by simp
next
  case (Cons e ev)
  then show ?case by (cases e) simp_all
qed

lemma split_saves_append_save:
  "saved ev = [] \<Longrightarrow> split_saves acc (ev @ Save x # rest) = (acc @ ev, x) # split_saves [] rest"
proof (induction ev arbitrary: acc)
  case Nil
  show ?case by simp
next
  case (Cons e ev)
  then show ?case by (cases e) simp_all
qed

lemma main_loop_state:
  assumes "main_loop w cfg st = (e, st')"
  shows "batches st' = batches st @ fst (plan w cfg (length (batches st)) (cursor st) (processed st))
    \<and> e = snd (plan w cfg (length (batches st)) (cursor st) (processed st))
    \<and> processed st' = processed st
          + length (concat (fst (plan w cfg (length (batches st)) (cursor st) (processed st))))
    \<and> errors st' = errors st + (if dry_run cfg then 0
          else length (filter (\<lambda>i. outcome_of w i = Error)
                 (concat (fst (plan w cfg (length (batches st)) (cursor st) (processed st))))))
    \<and> found st' = found st + (if dry_run cfg then 0
          else length (filter (\<lambda>i. outcome_of w i = Found)
                 (concat (fst (plan w cfg (length (batches st)) (cursor st) (processed st))))))
    \<and> cursor_file st'
        = fold (saveCursor w)
            (map last (fst (plan w cfg (length (batches st)) (cursor st) (processed st))))
            (cursor_file st)"
  using assms
proof (induction rule: main_loop_induct)
  case (rejected st)
  then show ?case by (simp add: plan_rejected)
next
  case (stop st)
  then show ?case by (simp add: plan_stop)
next
  case (stall st ids)
  then show ?case by (simp add: plan_stall)
next
  case (last st ids st3)
  then have "plan w cfg (length (batches st)) (cursor st) (processed st) = ([ids], Completed)"
    by (intro plan_last) (simp_all add: iteration_def)
  with last show ?case by (simp add: iteration_def)
next
  case (more st ids st3 e st')
  let ?P = "plan w cfg (Suc (length (batches st))) (Some (List.last ids)) (processed st + length ids)"
  from more have p: "plan w cfg (length (batches st)) (cursor st) (processed st)
                  = (ids # fst ?P, snd ?P)"
    by (intro plan_more) (simp_all add: iteration_def)
  have c: "cursor st3 = Some (List.last ids)" "processed st3 = processed st + length ids"
    "length (batches st3) = Suc (length (batches st))"
    using more(1) by (simp_all add: iteration_def)
  from more(1,4) show ?case
    unfolding p c by (simp add: iteration_def)
qed

lemma main_loop_trace:
  assumes "main_loop w cfg st = (e, st')"
  shows "\<exists>ext. trace st' = trace st @ Query (cursor st) # ext
    \<and> map seg_read (split_saves acc (Query (cursor st) # ext))
        = (case fst (plan w cfg (length (batches st)) (cursor st) (processed st)) of
             [] \<Rightarrow> []
           | b # bs \<Rightarrow> (dispatched acc @ fst (batch_read cfg b),
                        mset (settled acc) + fst (snd (batch_read cfg b)), last b)
                       # map (batch_read cfg) bs)
    \<and> saved (Query (cursor st) # ext)
        = map last (fst (plan w cfg (length (batches st)) (cursor st) (processed st)))
    \<and> dispatched (Query (cursor st) # ext)
        = (if dry_run cfg then []
           else concat (fst (plan w cfg (length (batches st)) (cursor st) (processed st))))
    \<and> mset (settled (Query (cursor st) # ext))
        = (if dry_run cfg then {#}
           else mset (concat (fst (plan w cfg (length (batches st)) (cursor st) (processed st)))))
    \<and> mset (logged (Query (cursor st) # ext))
        = (if dry_run cfg then {#}
           else mset (map (\<lambda>i. (i, outcome_of w i))
                  (concat (fst (plan w cfg (length (batches st)) (cursor st) (processed st))))))"
  using assms
proof (induction arbitrary: acc rule: main_loop_induct)
  case (rejected st)
  then show ?case by (simp add: plan_rejected)
next
  case (stop st)
  then show ?case by (simp add: plan_stop)
next
  case (stall st ids)
  then show ?case by (simp add: plan_stall)
next
  case (last st ids st3)
  then have p: "plan w cfg (length (batches st)) (cursor st) (processed st) = ([ids], Completed)"
    by (intro plan_last) (simp_all add: iteration_def)
  from last(1) obtain ev where ev: "trace st3 = trace st @ Query (cursor st) # ev @ [Save (List.last ids)]"
    "dispatched ev = (if dry_run cfg then [] else ids)"
    "mset (settled ev) = (if dry_run cfg then {#} else mset ids)"
    "mset (logged ev) = (if dry_run cfg then {#} else mset (map (\<lambda>i. (i, outcome_of w i)) ids))"
    "saved ev = []" "queried ev = []"
    unfolding iteration_def by blast
  have s: "split_saves (acc @ [Query (cursor st)]) (ev @ [Save (List.last ids)])
             = [((acc @ [Query (cursor st)]) @ ev, List.last ids)]"
    using split_saves_append_save [OF ev(5), of "acc @ [Query (cursor st)]" "List.last ids" "[]"]
    by simp
  show ?case
    unfolding p
    by (rule exI [of _ "ev @ [Save (List.last ids)]"])
       (simp add: ev s seg_read_def batch_read_def)
next
  case (more st ids st3 e st')
  let ?P = "fst (plan w cfg (Suc (length (batches st))) (Some (List.last ids)) (processed st + length ids))"
  from more have p: "fst (plan w cfg (length (batches st)) (cursor st) (processed st)) = ids # ?P"
    using plan_more [of w cfg "length (batches st)" "cursor st" "processed st" ids]
    by (simp add: iteration_def)
  have c: "cursor st3 = Some (List.last ids)" "processed st3 = processed st + length ids"
    "length (batches st3) = Suc (length (batches st))"
    using more(1) by (simp_all add: iteration_def)
  from more(1) obtain ev where ev: "trace st3 = trace st @ Query (cursor st) # ev @ [Save (List.last ids)]"
    "dispatched ev = (if dry_run cfg then [] else ids)"
    "mset (settled ev) = (if dry_run cfg then {#} else mset ids)"
    "mset (logged ev) = (if dry_run cfg then {#} else mset (map (\<lambda>i. (i, outcome_of w i)) ids))"
    "saved ev = []" "queried ev = []"
    unfolding iteration_def by blast
  from more(4) [of "[]"] obtain ext where ext: "trace st' = trace st3 @ Query (cursor st3) # ext"
    "map seg_read (split_saves [] (Query (cursor st3) # ext)) = map (batch_read cfg) ?P"
    "saved (Query (cursor st3) # ext) = map List.last ?P"
    "dispatched (Query (cursor st3) # ext) = (if dry_run cfg then [] else concat ?P)"
    "mset (settled (Query (cursor st3) # ext)) = (if dry_run cfg then {#} else mset (concat ?P))"
    "mset (logged (Query (cursor st3) # ext))
       = (if dry_run cfg then {#} else mset (map (\<lambda>i. (i, outcome_of w i)) (concat ?P)))"
    unfolding c by (auto simp: batch_read_def split: list.splits)
  let ?ext = "ev @ Save (List.last ids) # Query (cursor st3) # ext"
  have s: "split_saves (acc @ [Query (cursor st)]) ?ext
             = ((acc @ [Query (cursor st)]) @ ev, List.last ids) # split_saves [] (Query (cursor st3) # ext)"
    using ev(5) by (rule split_saves_append_save)
  have t: "trace st' = trace st @ Query (cursor st) # ?ext"
    using ext(1) ev(1) by simp
  show ?case
    unfolding p
  proof (rule exI [of _ ?ext], intro conjI)
    show "trace st' = trace st @ Query (cursor st) # ?ext" by (rule t)
    have "split_saves acc (Query (cursor st) # ?ext) = split_saves (acc @ [Query (cursor st)]) ?ext"
      by simp
    then show "map seg_read (split_saves acc (Query (cursor st) # ?ext))
        = (case ids # ?P of [] \<Rightarrow> []
           | b # bs \<Rightarrow> (dispatched acc @ fst (batch_read cfg b),
                        mset (settled acc) + fst (snd (batch_read cfg b)), List.last b)
                       # map (batch_read cfg) bs)"
      using ev(2,3) ext(2) by (simp only: s) (simp add: seg_read_def batch_read_def)
    show "saved (Query (cursor st) # ?ext) = map List.last (ids # ?P)"
      using ev(5) ext(3) by simp
    show "dispatched (Query (cursor st) # ?ext) = (if dry_run cfg then [] else concat (ids # ?P))"
      using ev(2) ext(4) by simp
    show "mset (settled (Query (cursor st) # ?ext)) = (if dry_run cfg then {#} else mset (concat (ids # ?P)))"
      using ev(3) ext(5) by simp
    show "mset (logged (Query (cursor st) # ?ext))
        = (if dry_run cfg then {#}
           else mset (map (\<lambda>i. (i, outcome_of w i)) (concat (ids # ?P))))"
      using ev(4) ext(6) by simp
  qed
qed
section \<open>The batches of a run: order and independence\<close>

lemma after_cursor_trans: "after_cursor c x \<Longrightarrow> x < i \<Longrightarrow> after_cursor c i"
  by (auto simp: after_cursor_def split: option.splits)

lemma getIdsPage_sorted: "getIdsPage w cfg k after lmt = Some page \<Longrightarrow> sorted page"
  by (auto simp: getIdsPage_def sorted_wrt_take split: if_splits option.splits)

lemma next_batch_sorted: "next_batch w cfg k c n = Some ids \<Longrightarrow> sorted ids"
  by (auto simp: next_batch_def slice0_def sorted_wrt_take dest: getIdsPage_sorted)

lemma plan_ascending: "ascending c (fst (plan w cfg k c n))"
proof (induction w cfg k c n rule: plan.induct)
  case (1 w cfg k c n)
  show ?case
  proof (cases "next_batch w cfg k c n")
    case None
    then show ?thesis by (simp add: plan_rejected)
  next
    case (Some ids)
    have a: "list_all (after_cursor c) ids"
      using next_batch_after [OF Some] by (auto simp: list_all_iff)
    have s: "sorted ids" using Some by (rule next_batch_sorted)
    show ?thesis
    proof (cases "ids = []")
      case True
      with Some show ?thesis by (simp add: plan_stop)
    next
      case False
      show ?thesis
      proof (cases "\<not> dry_run cfg \<and> \<not> num_lt (Finite 0) (concurrency cfg)")
        case True
        with Some False show ?thesis by (simp add: plan_stall)
      next
        case runs: False
        then have r: "dry_run cfg \<or> num_lt (Finite 0) (concurrency cfg)" by blast
        show ?thesis
        proof (cases "limit_reached (limit cfg) (n + length ids)")
          case True
          with Some False r have "plan w cfg k c n = ([ids], Completed)" by (intro plan_last)
          with False a s show ?thesis by simp
        next
          case nl: False
          with Some False r
          have "plan w cfg k c n
                  = (ids # fst (plan w cfg (Suc k) (Some (last ids)) (n + length ids)),
                     snd (plan w cfg (Suc k) (Some (last ids)) (n + length ids)))"
            by (intro plan_more)
          with False a s "1.IH" [OF Some False runs nl] show ?thesis by simp
        qed
      qed
    qed
  qed
qed

lemma ascending_after: "ascending c B \<Longrightarrow> i \<in> set (concat B) \<Longrightarrow> after_cursor c i"
proof (induction B arbitrary: c)
  case Nil
  then show ?case by simp
next
  case (Cons b bs)
  from Cons.prems(1) have l: "after_cursor c (last b)"
    by (auto simp: list_all_iff)
  show ?case
  proof (cases "i \<in> set b")
    case True
    with Cons.prems(1) show ?thesis by (auto simp: list_all_iff)
  next
    case False
    with Cons.prems have "i \<in> set (concat bs)" "ascending (Some (last b)) bs" by auto
    then have "after_cursor (Some (last b)) i" using Cons.IH by blast
    then have "last b < i" by (simp add: after_cursor_def)
    with l show ?thesis by (rule after_cursor_trans)
  qed
qed

text \<open>
  The ids of the batches from the \<open>k\<close>-th on are beyond the cursor and beyond the last
  id of each of the first \<open>k\<close> batches.
\<close>

lemma ascending_drop:
  "ascending c B \<Longrightarrow> i \<in> set (concat (drop k B))
   \<Longrightarrow> after_cursor c i \<and> (\<forall>y \<in> set (take k (map last B)). y < i)"
proof (induction B arbitrary: c k)
  case Nil
  then show ?case by simp
next
  case (Cons b bs)
  show ?case
  proof (cases k)
    case 0
    with Cons.prems ascending_after [of c "b # bs" i] show ?thesis by simp
  next
    case (Suc k')
    with Cons.prems have i: "i \<in> set (concat (drop k' bs))" and a: "ascending (Some (last b)) bs"
      by auto
    from Cons.IH [OF a i] have 1: "after_cursor (Some (last b)) i"
      and 2: "\<forall>y \<in> set (take k' (map last bs)). y < i" by blast+
    from 1 have lt: "last b < i" by (simp add: after_cursor_def)
    from Cons.prems(1) have "after_cursor c (last b)" by (auto simp: list_all_iff)
    then have "after_cursor c i" using lt by (rule after_cursor_trans)
    with lt 2 Suc show ?thesis by simp
  qed
qed

lemma ascending_nonempty: "ascending c B \<Longrightarrow> [] \<notin> set B"
  by (induction B arbitrary: c) auto

lemma sorted_le_last:
  fixes xs :: "'a::linorder list"
  shows "sorted xs \<Longrightarrow> x \<in> set xs \<Longrightarrow> x \<le> last xs"
  by (induction xs) auto


lemma ascending_sorted_concat: "ascending c B \<Longrightarrow> sorted (concat B)"
proof (induction B arbitrary: c)
  case Nil
  show ?case by simp
next
  case (Cons b bs)
  from Cons.prems have b: "sorted b" and a: "ascending (Some (last b)) bs" by auto
  have "x \<le> y" if x: "x \<in> set b" and y: "y \<in> set (concat bs)" for x y
  proof -
    from b x have "x \<le> last b" by (rule sorted_le_last)
    moreover from ascending_after [OF a y] have "last b < y" by (simp add: after_cursor_def)
    ultimately show ?thesis by simp
  qed
  with b Cons.IH [OF a] show ?case by (auto simp: sorted_append)
qed

text \<open>
  The batches and the ending do not depend on the answers, the scheduling or the file
  system.
\<close>

lemma next_batch_independent:
  assumes "cards w' = cards w" and "probe_set w' = probe_set w"
  shows "next_batch w' cfg k c n = next_batch w cfg k c n"
  unfolding next_batch_def getIdsPage_def HAS_YGO_EBAY_TABLE_def assms ..

lemma plan_independent:
  "cards w' = cards w \<Longrightarrow> probe_set w' = probe_set w
   \<Longrightarrow> plan w' cfg k c n = plan w cfg k c n"
proof (induction w cfg k c n rule: plan.induct)
  case (1 w cfg k c n)
  have e: "next_batch w' cfg k c n = next_batch w cfg k c n" for k c n
    using "1.prems" by (rule next_batch_independent)
  show ?case
  proof (cases "next_batch w cfg k c n")
    case None
    with e show ?thesis by (simp add: plan_rejected)
  next
    case (Some ids)
    with e have Some': "next_batch w' cfg k c n = Some ids" by simp
    show ?thesis
    proof (cases "ids = []")
      case True
      with Some Some' show ?thesis by (simp add: plan_stop)
    next
      case False
      show ?thesis
      proof (cases "\<not> dry_run cfg \<and> \<not> num_lt (Finite 0) (concurrency cfg)")
        case True
        with Some Some' False show ?thesis by (simp add: plan_stall)
      next
        case runs: False
        then have r: "dry_run cfg \<or> num_lt (Finite 0) (concurrency cfg)" by blast
        show ?thesis
        proof (cases "limit_reached (limit cfg) (n + length ids)")
          case True
          with Some False r have "plan w cfg k c n = ([ids], Completed)" by (intro plan_last)
          moreover from True Some' False r have "plan w' cfg k c n = ([ids], Completed)"
            by (intro plan_last)
          ultimately show ?thesis by simp
        next
          case nl: False
          with Some False r
          have "plan w cfg k c n
                  = (ids # fst (plan w cfg (Suc k) (Some (last ids)) (n + length ids)),
                     snd (plan w cfg (Suc k) (Some (last ids)) (n + length ids)))"
            by (intro plan_more)
          moreover from nl Some' False r
          have "plan w' cfg k c n
                  = (ids # fst (plan w' cfg (Suc k) (Some (last ids)) (n + length ids)),
                     snd (plan w' cfg (Suc k) (Some (last ids)) (n + length ids)))"
            by (intro plan_more)
          ultimately show ?thesis
            using "1.IH" [OF Some False runs nl "1.prems"] by simp
        qed
      qed
    qed
  qed
qed

section \<open>How a run ends\<close>

text \<open>
  A page query is refused only for the freshness clause or for the value of \<open>BATCH\<close>;
  a batch waits for ever only outside a dry run, with a concurrency that is not positive.
\<close>

lemma getIdsPage_accepted:
  "\<not> only_missing_ebay cfg \<or> probe_set w = None \<Longrightarrow> limit_param lmt \<noteq> None
   \<Longrightarrow> \<exists>page. getIdsPage w cfg k after lmt = Some page"
  by (auto simp: getIdsPage_def HAS_YGO_EBAY_TABLE_def)

lemma getIdsPage_first:
  "limit_param lmt \<noteq> None \<Longrightarrow> \<exists>page. getIdsPage w cfg 0 after lmt = Some page"
  by (auto simp: getIdsPage_def HAS_YGO_EBAY_TABLE_def split: option.splits)

lemma plan_not_rejected:
  "\<not> only_missing_ebay cfg \<or> probe_set w = None \<Longrightarrow> limit_param (batch cfg) \<noteq> None
   \<Longrightarrow> snd (plan w cfg k c n) \<noteq> QueryRejected"
proof (induction w cfg k c n rule: plan.induct)
  case (1 w cfg k c n)
  from getIdsPage_accepted [OF "1.prems", of k c] obtain ids
    where Some: "next_batch w cfg k c n = Some ids"
    by (auto simp: next_batch_def)
  show ?case
  proof (cases "ids = []")
    case True
    with Some show ?thesis by (simp add: plan_stop)
  next
    case False
    show ?thesis
    proof (cases "\<not> dry_run cfg \<and> \<not> num_lt (Finite 0) (concurrency cfg)")
      case True
      with Some False show ?thesis by (simp add: plan_stall)
    next
      case runs: False
      then have r: "dry_run cfg \<or> num_lt (Finite 0) (concurrency cfg)" by blast
      show ?thesis
      proof (cases "limit_reached (limit cfg) (n + length ids)")
        case True
        with Some False r have "plan w cfg k c n = ([ids], Completed)" by (intro plan_last)
        then show ?thesis by simp
      next
        case nl: False
        with Some False r
        have "plan w cfg k c n
                = (ids # fst (plan w cfg (Suc k) (Some (last ids)) (n + length ids)),
                   snd (plan w cfg (Suc k) (Some (last ids)) (n + length ids)))"
          by (intro plan_more)
        with "1.IH" [OF Some False runs nl "1.prems"] show ?thesis by simp
      qed
    qed
  qed
qed

lemma plan_settles:
  "dry_run cfg \<or> num_lt (Finite 0) (concurrency cfg) \<Longrightarrow> snd (plan w cfg k c n) \<noteq> NeverSettles"
proof (induction w cfg k c n rule: plan.induct)
  case (1 w cfg k c n)
  note r = "1.prems"
  then have runs: "\<not> (\<not> dry_run cfg \<and> \<not> num_lt (Finite 0) (concurrency cfg))" by blast
  show ?case
  proof (cases "next_batch w cfg k c n")
    case None
    then show ?thesis by (simp add: plan_rejected)
  next
    case (Some ids)
    show ?thesis
    proof (cases "ids = []")
      case True
      with Some show ?thesis by (simp add: plan_stop)
    next
      case False
      show ?thesis
      proof (cases "limit_reached (limit cfg) (n + length ids)")
        case True
        with Some False r have "plan w cfg k c n = ([ids], Completed)" by (intro plan_last)
        then show ?thesis by simp
      next
        case nl: False
        with Some False r
        have "plan w cfg k c n
                = (ids # fst (plan w cfg (Suc k) (Some (last ids)) (n + length ids)),
                   snd (plan w cfg (Suc k) (Some (last ids)) (n + length ids)))"
          by (intro plan_more)
        with "1.IH" [OF Some False runs nl r] show ?thesis by simp
      qed
    qed
  qed
qed

lemma plan_completes:
  assumes "\<not> only_missing_ebay cfg \<or> probe_set w = None" and "limit_param (batch cfg) \<noteq> None"
    and "dry_run cfg \<or> num_lt (Finite 0) (concurrency cfg)"
  shows "snd (plan w cfg k c n) = Completed"
  using plan_not_rejected [OF assms(1,2), of k c n] plan_settles [OF assms(3), of w k c n]
  by (cases "snd (plan w cfg k c n)") simp_all

section \<open>The cursor file\<close>

lemma fold_saveCursor_cases:
  "fold (saveCursor w) xs f = f \<or> (\<exists>x \<in> set xs. fold (saveCursor w) xs f = Some x)"
proof (induction xs arbitrary: f)
  case Nil
  show ?case by simp
next
  case (Cons x xs)
  from Cons.IH [of "saveCursor w x f"] show ?case
    by (auto simp: saveCursor_def split: if_splits)
qed

lemma fold_saveCursor_ok:
  "list_all (write_ok w) xs \<Longrightarrow> fold (saveCursor w) xs f = (if xs = [] then f else Some (last xs))"
  by (induction xs arbitrary: f) (auto simp: saveCursor_def)

section \<open>Properties of the harvester\<close>

lemma harvest_run_facts:
  assumes "harvest_run w cfg f = (e, st)"
  shows "batches st = fst (plan w cfg 0 (loadCursor cfg f) 0)"
    and "processed st = length (concat (batches st))"
    and "errors st = (if dry_run cfg then 0
           else length (filter (\<lambda>i. outcome_of w i = Error) (concat (batches st))))"
    and "found st = (if dry_run cfg then 0
           else length (filter (\<lambda>i. outcome_of w i = Found) (concat (batches st))))"
    and "cursor_file st = fold (saveCursor w) (map last (batches st)) f"
    and "\<exists>ext. trace st = Query (loadCursor cfg f) # ext"
    and "map seg_read (split_saves [] (trace st)) = map (batch_read cfg) (batches st)"
    and "saved (trace st) = map last (batches st)"
    and "dispatched (trace st) = (if dry_run cfg then [] else concat (batches st))"
    and "mset (settled (trace st)) = (if dry_run cfg then {#} else mset (concat (batches st)))"
    and "mset (logged (trace st))
           = (if dry_run cfg then {#} else mset (map (\<lambda>i. (i, outcome_of w i)) (concat (batches st))))"
    and "ascending (loadCursor cfg f) (batches st)"
    and "e = snd (plan w cfg 0 (loadCursor cfg f) 0)"
proof -
  let ?st0 = "harvest_init cfg f"
  let ?P = "fst (plan w cfg 0 (loadCursor cfg f) 0)"
  have r: "main_loop w cfg ?st0 = (e, st)"
    using assms by (simp add: harvest_run_def)
  have i: "cursor ?st0 = loadCursor cfg f" "processed ?st0 = 0" "batches ?st0 = []"
    "errors ?st0 = 0" "found ?st0 = 0" "cursor_file ?st0 = f" "trace ?st0 = []"
    by (simp_all add: harvest_init_def)
  have l: "length ([] :: 'a list list) = 0" by simp
  note s = main_loop_state [OF r, unfolded i l]
  from s show b: "batches st = ?P" by simp
  from s show "e = snd (plan w cfg 0 (loadCursor cfg f) 0)" by simp
  from s show "processed st = length (concat (batches st))" by simp
  from s show "errors st = (if dry_run cfg then 0
           else length (filter (\<lambda>i. outcome_of w i = Error) (concat (batches st))))" by simp
  from s show "found st = (if dry_run cfg then 0
           else length (filter (\<lambda>i. outcome_of w i = Found) (concat (batches st))))" by simp
  from s show "cursor_file st = fold (saveCursor w) (map last (batches st)) f" by simp
  from main_loop_trace [OF r, of "[]", unfolded i l] obtain ext where
    t: "trace st = Query (loadCursor cfg f) # ext"
    and sp: "map seg_read (split_saves [] (Query (loadCursor cfg f) # ext))
        = (case ?P of
             [] \<Rightarrow> []
           | b # bs \<Rightarrow> (dispatched [] @ fst (batch_read cfg b),
                        mset (settled []) + fst (snd (batch_read cfg b)), last b)
                       # map (batch_read cfg) bs)"
    and rest: "saved (Query (loadCursor cfg f) # ext) = map last ?P"
      "dispatched (Query (loadCursor cfg f) # ext) = (if dry_run cfg then [] else concat ?P)"
      "mset (settled (Query (loadCursor cfg f) # ext))
        = (if dry_run cfg then {#} else mset (concat ?P))"
      "mset (logged (Query (loadCursor cfg f) # ext))
        = (if dry_run cfg then {#}
           else mset (map (\<lambda>i. (i, outcome_of w i)) (concat ?P)))"
    by auto
  from t show "\<exists>ext. trace st = Query (loadCursor cfg f) # ext" by blast
  have "(case ?P of
             [] \<Rightarrow> []
           | b # bs \<Rightarrow> (dispatched [] @ fst (batch_read cfg b),
                        mset (settled []) + fst (snd (batch_read cfg b)), last b)
                       # map (batch_read cfg) bs)
        = map (batch_read cfg) ?P"
    by (cases ?P) (simp_all add: batch_read_def)
  with sp show "map seg_read (split_saves [] (trace st)) = map (batch_read cfg) (batches st)"
    unfolding t b by simp
  from rest show "saved (trace st) = map last (batches st)"
    "dispatched (trace st) = (if dry_run cfg then [] else concat (batches st))"
    "mset (settled (trace st)) = (if dry_run cfg then {#} else mset (concat (batches st)))"
    "mset (logged (trace st))
           = (if dry_run cfg then {#} else mset (map (\<lambda>i. (i, outcome_of w i)) (concat (batches st))))"
    unfolding t b by simp_all
  show "ascending (loadCursor cfg f) (batches st)"
    unfolding b by (rule plan_ascending)
qed

lemma harvest_run_independent:
  assumes "harvest_run w cfg f = (e, st)"
  shows "\<exists>st'. harvest_run (w\<lparr>respond := r, pick := p\<rparr>) cfg f = (e, st') \<and> batches st' = batches st"
proof -
  obtain e' st' where st': "harvest_run (w\<lparr>respond := r, pick := p\<rparr>) cfg f = (e', st')"
    by (cases "harvest_run (w\<lparr>respond := r, pick := p\<rparr>) cfg f")
  have q: "plan (w\<lparr>respond := r, pick := p\<rparr>) cfg 0 (loadCursor cfg f) 0
             = plan w cfg 0 (loadCursor cfg f) 0"
    by (rule plan_independent) simp_all
  have "batches st' = batches st"
    using harvest_run_facts(1) [OF st'] harvest_run_facts(1) [OF assms] q by simp
  moreover have "e' = e"
    using harvest_run_facts(13) [OF st'] harvest_run_facts(13) [OF assms] q by simp
  ultimately show ?thesis using st' by simp
qed

lemma fetch_failure_classes:
  "classify (fetchOne TransportFailure) = Error"
  "\<not> (200 \<le> s \<and> s \<le> 299) \<Longrightarrow> classify (fetchOne (Response s j b)) = Error"
  "classify (fetchOne (Response s j None)) = Error"
  by auto

text \<open>The constants of the command lines of the examples.\<close>

lemma example_config_eq:
  "example_config
     = \<lparr>limit = Finite 0, batch = Finite 50, concurrency = Finite 2, dry_run = False,
        start_after = None, only_missing_ebay = False\<rparr>"
  by (simp add: example_config_def config_of_flags_def LIMIT_def BATCH_def CONCURRENCY_def
      flags_get_def parse_flag_def nat_id_def math_max_def math_min_def js_def number_defs
      char_defs Let_def)

lemma limited_config_eq:
  "config_of_flags nat_id [js ''--limit=60'', js ''--batch=50'', js ''--concurrency=2'']
     = \<lparr>limit = Finite 60, batch = Finite 50, concurrency = Finite 2, dry_run = False,
        start_after = None, only_missing_ebay = False\<rparr>"
  by (simp add: config_of_flags_def LIMIT_def BATCH_def CONCURRENCY_def
      flags_get_def parse_flag_def nat_id_def math_max_def math_min_def js_def number_defs
      char_defs Let_def)


lemma missing_config_eq:
  "config_of_flags nat_id [js ''--only-missing-ebay'', js ''--days=3'']
     = \<lparr>limit = Finite 0, batch = Finite 500, concurrency = Finite 4, dry_run = False,
        start_after = None, only_missing_ebay = True\<rparr>"
  by (simp add: config_of_flags_def LIMIT_def BATCH_def CONCURRENCY_def
      flags_get_def parse_flag_def nat_id_def math_max_def math_min_def js_def number_defs
      char_defs Let_def)

lemma start_after_config_eq:
  "config_of_flags nat_id [js ''--startAfter=58'', js ''--batch=50'', js ''--concurrency=2'']
     = \<lparr>limit = Finite 0, batch = Finite 50, concurrency = Finite 2, dry_run = False,
        start_after = Some 58, only_missing_ebay = False\<rparr>"
  by (simp add: config_of_flags_def LIMIT_def BATCH_def CONCURRENCY_def
      flags_get_def parse_flag_def nat_id_def math_max_def math_min_def js_def number_defs
      char_defs Let_def)

lemma BATCH_floor:
  "BATCH (Some (js ''2'')) = Finite 50" "BATCH None = Finite 500"
  "BATCH (Some (js ''true'')) = NaN" "limit_param (BATCH (Some (js ''true''))) = None"
  by (simp_all add: BATCH_def limit_param_def math_max_def js_def number_defs char_defs Let_def)

lemma BATCH_fraction:
  "BATCH (Some (js ''50.5'')) = Finite (101 / 2)" "limit_param (BATCH (Some (js ''50.5''))) = None"
proof -
  show b: "BATCH (Some (js ''50.5'')) = Finite (101 / 2)"
    by (simp add: BATCH_def math_max_def js_def number_defs char_defs Let_def)
  have "\<lfloor>(101 :: rat) / 2\<rfloor> = 50" by (rule floor_unique) simp_all
  then show "limit_param (BATCH (Some (js ''50.5''))) = None"
    unfolding b by (simp add: limit_param_def)
qed

text \<open>
  With \<open>--only-missing-ebay\<close> and the table found by the probe, the first page is not
  filtered and the second page query is refused: the run of the example ends there, after
  one batch, which holds all the cards.
\<close>

lemma only_missing_ebay_example:
  "(case harvest_run example_world
           (config_of_flags nat_id [js ''--only-missing-ebay'', js ''--days=3'']) None of
      (e, st) \<Rightarrow> (e, batches st, errors st, saved (trace st), cursor_file st))
     = (QueryRejected, [[1..<63]], 2, [62], Some 62)"
  unfolding missing_config_eq by code_simp

text \<open>
  C6. An id whose fetch ends in a transport failure, in a status outside 200..299 or in
  a body that is not JSON is classified as an error. In every run outside dry-run mode,
  however it ends, every id of every batch is requested and settles, one line with its
  class is logged for each, and the error counter is the number of ids of the error class.
  The batches and the ending of the run are those of the plan, which the answers do not
  change: with any other answers and any other scheduling the run ends in the same way
  with the same batches. When no page query is refused and the concurrency is positive,
  the loop is left only at the end of the id space or at the limit.
\<close>

theorem fetch_failures_counted_and_run_continues:
  assumes "\<not> dry_run cfg"
  shows "\<exists>e st. harvest_run w cfg f = (e, st)
    \<and> dispatched (trace st) = concat (batches st)
    \<and> mset (settled (trace st)) = mset (concat (batches st))
    \<and> mset (logged (trace st)) = mset (map (\<lambda>i. (i, outcome_of w i)) (concat (batches st)))
    \<and> errors st = length (filter (\<lambda>i. outcome_of w i = Error) (concat (batches st)))
    \<and> processed st = length (concat (batches st))
    \<and> (\<forall>i. respond w i = TransportFailure \<longrightarrow> outcome_of w i = Error)
    \<and> (\<forall>i s j b. respond w i = Response s j b \<and> \<not> (200 \<le> s \<and> s \<le> 299) \<longrightarrow> outcome_of w i = Error)
    \<and> (\<forall>i s j. respond w i = Response s j None \<longrightarrow> outcome_of w i = Error)
    \<and> (\<forall>r p. \<exists>st'. harvest_run (w\<lparr>respond := r, pick := p\<rparr>) cfg f = (e, st')
                    \<and> batches st' = batches st)
    \<and> ((\<not> only_missing_ebay cfg \<or> probe_set w = None) \<and> limit_param (batch cfg) \<noteq> None
          \<and> num_lt (Finite 0) (concurrency cfg) \<longrightarrow> e = Completed)"
proof -
  obtain e st where st: "harvest_run w cfg f = (e, st)"
    by (cases "harvest_run w cfg f")
  note f = harvest_run_facts [OF st]
  have ind: "\<forall>r p. \<exists>st'. harvest_run (w\<lparr>respond := r, pick := p\<rparr>) cfg f = (e, st')
                    \<and> batches st' = batches st"
    using harvest_run_independent [OF st] by blast
  have c: "\<forall>i. respond w i = TransportFailure \<longrightarrow> outcome_of w i = Error"
    "\<forall>i s j b. respond w i = Response s j b \<and> \<not> (200 \<le> s \<and> s \<le> 299) \<longrightarrow> outcome_of w i = Error"
    "\<forall>i s j. respond w i = Response s j None \<longrightarrow> outcome_of w i = Error"
    by (auto simp: outcome_of_def)
  have d: "(\<not> only_missing_ebay cfg \<or> probe_set w = None) \<and> limit_param (batch cfg) \<noteq> None
          \<and> num_lt (Finite 0) (concurrency cfg) \<longrightarrow> e = Completed"
    unfolding f(13) by (auto intro: plan_completes)
  from f(9,10,11,3,2) assms
  have t: "dispatched (trace st) = concat (batches st)"
    "mset (settled (trace st)) = mset (concat (batches st))"
    "mset (logged (trace st)) = mset (map (\<lambda>i. (i, outcome_of w i)) (concat (batches st)))"
    "errors st = length (filter (\<lambda>i. outcome_of w i = Error) (concat (batches st)))"
    "processed st = length (concat (batches st))"
    by simp_all
  show ?thesis
    by (rule exI [of _ e], rule exI [of _ st]) (intro conjI st t c ind d)
qed

theorem fetch_failures_counted_and_run_continues_witness:
  "\<not> dry_run example_config
   \<and> respond example_world 2 = TransportFailure
   \<and> respond example_world 4 = Response 500 True None
   \<and> outcome_of example_world 2 = Error
   \<and> outcome_of example_world 4 = Error
   \<and> (\<exists>st. harvest_run example_world example_config None = (Completed, st)
         \<and> batches st = [[1..<51], [51..<63]]
         \<and> processed st = 62
         \<and> errors st = 2
         \<and> errors st = length (filter (\<lambda>i. outcome_of example_world i = Error) (concat (batches st)))
         \<and> dispatched (trace st) = concat (batches st))"
proof -
  have h: "\<not> dry_run example_config"
    by (simp add: example_config_eq)
  have r2: "respond example_world 2 = TransportFailure"
    and r4: "respond example_world 4 = Response 500 True None"
    by (simp_all add: example_world_def)
  have ev: "(case harvest_run example_world
                 \<lparr>limit = Finite 0, batch = Finite 50, concurrency = Finite 2, dry_run = False,
                    start_after = None, only_missing_ebay = False\<rparr> None of
               (e, st) \<Rightarrow> (e, batches st, processed st, errors st))
            = (Completed, [[1..<51], [51..<63]], 62, 2)"
    by code_simp
  from fetch_failures_counted_and_run_continues [OF h, of example_world None]
  obtain e st where r: "harvest_run example_world example_config None = (e, st)"
    and d: "dispatched (trace st) = concat (batches st)"
    and er: "errors st = length (filter (\<lambda>i. outcome_of example_world i = Error) (concat (batches st)))"
    and c1: "\<forall>i. respond example_world i = TransportFailure \<longrightarrow> outcome_of example_world i = Error"
    and c2: "\<forall>i s j b. respond example_world i = Response s j b \<and> \<not> (200 \<le> s \<and> s \<le> 299)
               \<longrightarrow> outcome_of example_world i = Error"
    by blast
  from ev r have v: "e = Completed" "batches st = [[1..<51], [51..<63]]" "processed st = 62"
    "errors st = 2"
    by (simp_all add: example_config_eq)
  from c1 r2 have o2: "outcome_of example_world 2 = Error" by blast
  from c2 r4 have o4: "outcome_of example_world 4 = Error" by fastforce
  from h r2 r4 o2 o4 r v d er show ?thesis by simp
qed



text \<open>
  C4, as stated, fails in three ways. In the run of the example from a cursor file that
  holds 60, with writes that fail, the batch of the cards 61 and 62 is requested and
  settles, \<open>saveCursor\<close> is called on 62, and the file still holds 60. A run with
  \<open>--startAfter=58\<close> over a file that holds 62 queries from 58, and requests the card 59,
  which is not beyond the persisted cursor; and when that run is cut after its first
  request, its one batch is not completed, the file holds 62, and a run from the file
  skips the card 59.
\<close>

theorem cursor_not_overwritten_or_not_followed:
  "(case harvest_run (example_world\<lparr>write_ok := (\<lambda>i. False)\<rparr>) example_config (Some 60) of
      (e, st) \<Rightarrow> (e, batches st, saved (trace st), mset (settled (trace st)), cursor_file st))
     = (Completed, [[61, 62]], [62], {#61, 62#}, Some 60)
   \<and> (case harvest_run example_world
           (config_of_flags nat_id
              [js ''--startAfter=58'', js ''--batch=50'', js ''--concurrency=2'']) (Some 62) of
        (e, st) \<Rightarrow> (e, batches st, take 2 (trace st),
                    file_after example_world (Some 62) (take 2 (trace st)),
                    concat (drop (length (saved (take 2 (trace st)))) (batches st)),
                    after_cursor (file_after example_world (Some 62) (take 2 (trace st))) 59))
       = (Completed, [[59, 60, 61, 62]], [Query (Some 58), Dispatch 59], Some 62,
          [59, 60, 61, 62], False)"
proof -
  have 1: "(case harvest_run (example_world\<lparr>write_ok := (\<lambda>i. False)\<rparr>)
               \<lparr>limit = Finite 0, batch = Finite 50, concurrency = Finite 2, dry_run = False,
                  start_after = None, only_missing_ebay = False\<rparr> (Some 60) of
      (e, st) \<Rightarrow> (e, batches st, saved (trace st), mset (settled (trace st)), cursor_file st))
     = (Completed, [[61, 62]], [62], {#61, 62#}, Some 60)"
    by code_simp
  have 2: "(case harvest_run example_world
               \<lparr>limit = Finite 0, batch = Finite 50, concurrency = Finite 2, dry_run = False,
                  start_after = Some 58, only_missing_ebay = False\<rparr> (Some 62) of
        (e, st) \<Rightarrow> (e, batches st, take 2 (trace st),
                    file_after example_world (Some 62) (take 2 (trace st)),
                    concat (drop (length (saved (take 2 (trace st)))) (batches st)),
                    after_cursor (file_after example_world (Some 62) (take 2 (trace st))) 59))
       = (Completed, [[59, 60, 61, 62]], [Query (Some 58), Dispatch 59], Some 62,
          [59, 60, 61, 62], False)"
    by code_simp
  from 1 2 show ?thesis unfolding example_config_eq start_after_config_eq by simp
qed

text \<open>
  C4, as it holds. In every run, however it ends, the trace between two calls of
  \<open>saveCursor\<close> holds the requests of exactly one batch, each sent once and each settled,
  and the call that closes it saves the last id of that batch: one call for each batch,
  after its last request has settled. A call whose write succeeds leaves that id in the
  cursor file; the file holds the last id whose write succeeded. A later run without
  \<open>--startAfter\<close> queries from the content of the file: its pages and its batches are
  ascending and beyond that cursor. If the run itself had no \<open>--startAfter\<close> and is cut
  at any point of its trace, every id of a batch whose \<open>saveCursor\<close> had not been reached
  is beyond the content of the file at that point: only batches that were completed are
  skipped.
\<close>

theorem cursor_saved_once_after_each_completed_batch:
  "\<exists>e st. harvest_run w cfg f = (e, st)
    \<and> map seg_read (split_saves [] (trace st)) = map (batch_read cfg) (batches st)
    \<and> saved (trace st) = map last (batches st)
    \<and> [] \<notin> set (batches st)
    \<and> cursor_file st = file_after w f (trace st)
    \<and> (\<forall>pre x post. trace st = pre @ Save x # post \<and> write_ok w x
          \<longrightarrow> file_after w f (pre @ [Save x]) = Some x)
    \<and> (list_all (write_ok w) (map last (batches st)) \<and> batches st \<noteq> []
          \<longrightarrow> cursor_file st = Some (last (last (batches st))))
    \<and> (\<forall>w' cfg' k n page. start_after cfg' = None
          \<and> getIdsPage w' cfg' k (loadCursor cfg' (cursor_file st)) n = Some page
          \<longrightarrow> sorted page \<and> list_all (after_cursor (cursor_file st)) page)
    \<and> (\<forall>w' cfg' e' st'. start_after cfg' = None \<and> harvest_run w' cfg' (cursor_file st) = (e', st')
          \<longrightarrow> (\<exists>ext. trace st' = Query (cursor_file st) # ext)
              \<and> list_all (after_cursor (cursor_file st)) (concat (batches st'))
              \<and> sorted (concat (batches st')))
    \<and> (\<forall>pre post i. start_after cfg = None \<and> trace st = pre @ post
          \<and> i \<in> set (concat (drop (length (saved pre)) (batches st)))
          \<longrightarrow> after_cursor (file_after w f pre) i)"
proof -
  obtain e st where st: "harvest_run w cfg f = (e, st)"
    by (cases "harvest_run w cfg f")
  note f = harvest_run_facts [OF st]
  let ?B = "batches st"
  have 2: "[] \<notin> set ?B" using f(12) by (rule ascending_nonempty)
  have 3: "cursor_file st = file_after w f (trace st)"
    using f(5,8) by (simp add: file_after_def)
  have q3: "\<forall>pre x post. trace st = pre @ Save x # post \<and> write_ok w x
          \<longrightarrow> file_after w f (pre @ [Save x]) = Some x"
    by (simp add: file_after_def saveCursor_def)
  have 4: "list_all (write_ok w) (map last ?B) \<and> ?B \<noteq> [] \<longrightarrow> cursor_file st = Some (last (last ?B))"
    using f(5) by (simp add: fold_saveCursor_ok last_map)
  have 5: "sorted page \<and> list_all (after_cursor (cursor_file st)) page"
    if sa: "start_after cfg' = None"
      and p: "getIdsPage w' cfg' k (loadCursor cfg' (cursor_file st)) n = Some page"
    for w' :: "'a world" and cfg' k n page
  proof -
    have "\<forall>i \<in> set page. after_cursor (cursor_file st) i"
      using getIdsPage_after [OF p] sa by (simp add: loadCursor_def)
    then show ?thesis
      using getIdsPage_sorted [OF p] by (simp add: list_all_iff)
  qed
  have 6: "(\<exists>ext. trace st' = Query (cursor_file st) # ext)
              \<and> list_all (after_cursor (cursor_file st)) (concat (batches st'))
              \<and> sorted (concat (batches st'))"
    if "start_after cfg' = None" "harvest_run w' cfg' (cursor_file st) = (e', st')"
    for w' :: "'a world" and cfg' e' st'
  proof -
    have l: "loadCursor cfg' (cursor_file st) = cursor_file st"
      using that(1) by (simp add: loadCursor_def)
    note g = harvest_run_facts [OF that(2), unfolded l]
    from g(12) have "list_all (after_cursor (cursor_file st)) (concat (batches st'))"
      using ascending_after unfolding list_all_iff by blast
    moreover from g(12) have "sorted (concat (batches st'))" by (rule ascending_sorted_concat)
    ultimately show ?thesis using g(6) by blast
  qed
  have 7: "after_cursor (file_after w f pre) i"
    if sa: "start_after cfg = None" and t: "trace st = pre @ post"
      and i: "i \<in> set (concat (drop (length (saved pre)) ?B))" for pre post i
  proof -
    have a: "ascending f ?B" using f(12) sa by (simp add: loadCursor_def)
    have "saved pre @ saved post = map last ?B" using f(8) t by simp
    then have sp: "saved pre = take (length (saved pre)) (map last ?B)"
      by (metis append_eq_conv_conj)
    from ascending_drop [OF a i] have ac: "after_cursor f i"
      and lt: "\<forall>y \<in> set (take (length (saved pre)) (map last ?B)). y < i" by blast+
    from fold_saveCursor_cases [of w "saved pre" f]
    show ?thesis
    proof
      assume "fold (saveCursor w) (saved pre) f = f"
      with ac show ?thesis by (simp add: file_after_def)
    next
      assume "\<exists>x \<in> set (saved pre). fold (saveCursor w) (saved pre) f = Some x"
      then obtain x where x: "x \<in> set (saved pre)" "fold (saveCursor w) (saved pre) f = Some x"
        by blast
      from x(1) sp lt have "x < i" by metis
      with x(2) show ?thesis by (simp add: file_after_def after_cursor_def)
    qed
  qed
  have q5: "\<forall>w' cfg' k n page. start_after cfg' = None
          \<and> getIdsPage w' cfg' k (loadCursor cfg' (cursor_file st)) n = Some page
          \<longrightarrow> sorted page \<and> list_all (after_cursor (cursor_file st)) page"
    by (intro allI impI, elim conjE, rule 5)
  have q6: "\<forall>w' cfg' e' st'. start_after cfg' = None \<and> harvest_run w' cfg' (cursor_file st) = (e', st')
          \<longrightarrow> (\<exists>ext. trace st' = Query (cursor_file st) # ext)
              \<and> list_all (after_cursor (cursor_file st)) (concat (batches st'))
              \<and> sorted (concat (batches st'))"
    by (intro allI impI, elim conjE, rule 6)
  have q7: "\<forall>pre post i. start_after cfg = None \<and> trace st = pre @ post
          \<and> i \<in> set (concat (drop (length (saved pre)) (batches st)))
          \<longrightarrow> after_cursor (file_after w f pre) i"
    by (intro allI impI, elim conjE, rule 7)
  show ?thesis
    by (rule exI [of _ e], rule exI [of _ st]) (intro conjI st f(7) f(8) 2 3 q3 4 q5 q6 q7)
qed

theorem cursor_saved_once_after_each_completed_batch_witness:
  "start_after (config_of_flags nat_id [js ''--limit=60'', js ''--batch=50'', js ''--concurrency=2''])
     = None
   \<and> start_after example_config = None
   \<and> write_ok example_world 50
   \<and> (\<exists>st st'. harvest_run example_world
            (config_of_flags nat_id [js ''--limit=60'', js ''--batch=50'', js ''--concurrency=2'']) None
          = (Completed, st)
        \<and> batches st = [[1..<51], [51..<61]]
        \<and> saved (trace st) = [50, 60]
        \<and> cursor_file st = Some 60
        \<and> take 4 (drop 151 (trace st)) = [Save 50, Query (Some 50), Dispatch 51, Dispatch 52]
        \<and> file_after example_world None (take 152 (trace st)) = Some 50
        \<and> file_after example_world None (take 155 (trace st)) = Some 50
        \<and> after_cursor (file_after example_world None (take 155 (trace st))) 51
        \<and> harvest_run example_world example_config (cursor_file st) = (Completed, st')
        \<and> batches st' = [[61, 62]]
        \<and> take 1 (trace st') = [Query (Some 60)]
        \<and> list_all (after_cursor (Some 60)) (concat (batches st')))"
proof -
  let ?l = "config_of_flags nat_id [js ''--limit=60'', js ''--batch=50'', js ''--concurrency=2'']"
  have sl: "start_after ?l = None" by (simp add: limited_config_eq)
  have sa: "start_after example_config = None" by (simp add: example_config_eq)
  have w50: "write_ok example_world 50" by (simp add: example_world_def)
  have ev: "(case harvest_run example_world
                 \<lparr>limit = Finite 60, batch = Finite 50, concurrency = Finite 2, dry_run = False,
                    start_after = None, only_missing_ebay = False\<rparr> None of
               (e, st) \<Rightarrow> (e, batches st, saved (trace st), cursor_file st,
                           take 4 (drop 151 (trace st)), saved (take 155 (trace st)),
                           file_after example_world None (take 155 (trace st))))
            = (Completed, [[1..<51], [51..<61]], [50, 60], Some 60,
               [Save 50, Query (Some 50), Dispatch 51, Dispatch 52], [50], Some 50)"
    by code_simp
  have ev': "(case harvest_run example_world
                 \<lparr>limit = Finite 0, batch = Finite 50, concurrency = Finite 2, dry_run = False,
                    start_after = None, only_missing_ebay = False\<rparr> (Some 60) of
               (e, st) \<Rightarrow> (e, batches st, take 1 (trace st)))
            = (Completed, [[61, 62]], [Query (Some 60)])"
    by code_simp
  from cursor_saved_once_after_each_completed_batch [of example_world ?l None]
  obtain e st where r: "harvest_run example_world ?l None = (e, st)"
    and sv: "\<forall>pre x post. trace st = pre @ Save x # post \<and> write_ok example_world x
          \<longrightarrow> file_after example_world None (pre @ [Save x]) = Some x"
    and later: "\<forall>w' cfg' e' st'. start_after cfg' = None
          \<and> harvest_run w' cfg' (cursor_file st) = (e', st')
          \<longrightarrow> (\<exists>ext. trace st' = Query (cursor_file st) # ext)
              \<and> list_all (after_cursor (cursor_file st)) (concat (batches st'))
              \<and> sorted (concat (batches st'))"
    and cut: "\<forall>pre post i. start_after ?l = None \<and> trace st = pre @ post
          \<and> i \<in> set (concat (drop (length (saved pre)) (batches st)))
          \<longrightarrow> after_cursor (file_after example_world None pre) i"
    by blast
  from ev r have v: "e = Completed" "batches st = [[1..<51], [51..<61]]"
    "saved (trace st) = [50, 60]" "cursor_file st = Some 60"
    "take 4 (drop 151 (trace st)) = [Save 50, Query (Some 50), Dispatch 51, Dispatch 52]"
    "saved (take 155 (trace st)) = [50]"
    "file_after example_world None (take 155 (trace st)) = Some 50"
    by (simp_all add: limited_config_eq)
  obtain e' st' where r': "harvest_run example_world example_config (cursor_file st) = (e', st')"
    by (cases "harvest_run example_world example_config (cursor_file st)")
  from ev' r' have v': "e' = Completed" "batches st' = [[61, 62]]"
    "take 1 (trace st') = [Query (Some 60)]"
    by (simp_all add: example_config_eq v(4))
  from later sa r' have "list_all (after_cursor (cursor_file st)) (concat (batches st'))"
    by blast
  then have l: "list_all (after_cursor (Some 60)) (concat (batches st'))"
    by (simp only: v(4))
  have t: "trace st = take 155 (trace st) @ drop 155 (trace st)" by simp
  have i: "51 \<in> set (concat (drop (length (saved (take 155 (trace st)))) (batches st)))"
    by (simp add: v(2,6))
  from cut sl t i have a: "after_cursor (file_after example_world None (take 155 (trace st))) 51"
    by blast
  have d: "drop 151 (trace st) = Save 50 # drop 152 (trace st)"
  proof -
    have "take 4 (drop 151 (trace st)) \<noteq> []" by (simp add: v(5))
    then have "drop 151 (trace st) \<noteq> []" by auto
    then have "drop 151 (trace st) = hd (drop 151 (trace st)) # tl (drop 151 (trace st))"
      by simp
    moreover have "hd (drop 151 (trace st)) = hd (take 4 (drop 151 (trace st)))"
      by simp
    moreover have "tl (drop 151 (trace st)) = drop 152 (trace st)"
    proof -
      have "tl (drop 151 (trace st)) = drop (Suc 151) (trace st)"
        by (simp only: drop_Suc tl_drop)
      then show ?thesis by simp
    qed
    ultimately show ?thesis by (simp add: v(5))
  qed
  have t2: "trace st = take 151 (trace st) @ Save 50 # drop 152 (trace st)"
    using d append_take_drop_id [of 151 "trace st"] by simp
  have t3: "take 152 (trace st) = take 151 (trace st) @ [Save 50]"
  proof -
    have "take 152 (trace st) = take 152 (take 151 (trace st) @ Save 50 # drop 152 (trace st))"
      using t2 by simp
    also have "length (take 151 (trace st)) = 151"
    proof -
      have "drop 151 (trace st) \<noteq> []" using d by simp
      then show ?thesis by simp
    qed
    then have "take 152 (take 151 (trace st) @ Save 50 # drop 152 (trace st))
                 = take 151 (trace st) @ [Save 50]"
      by simp
    finally show ?thesis .
  qed
  from sv t2 w50 have "file_after example_world None (take 151 (trace st) @ [Save 50]) = Some 50"
    by blast
  then have s: "file_after example_world None (take 152 (trace st)) = Some 50"
    by (simp only: t3)
  from r v(1) have r0: "harvest_run example_world ?l None = (Completed, st)" by simp
  from r' v'(1) have r1: "harvest_run example_world example_config (cursor_file st) = (Completed, st')"
    by simp
  show ?thesis
    by (intro conjI sl sa w50 exI [of _ st] exI [of _ st'] r0 v(2,3,4,5) s v(7) a r1 v'(2,3) l)
qed

section \<open>Properties of the concurrency\<close>

lemma CONCURRENCY_default: "CONCURRENCY None = Finite 4"
  by (simp add: CONCURRENCY_def math_min_def math_max_def js_def number_defs char_defs Let_def)

lemma CONCURRENCY_numeric:
  assumes "Number v \<noteq> NaN"
  shows "\<exists>q. CONCURRENCY (Some v) = Finite q \<and> 1 \<le> q \<and> q \<le> 8"
  using assms by (cases "Number v") (auto simp: CONCURRENCY_def math_min_def math_max_def)

lemma CONCURRENCY_NaN: "Number v = NaN \<Longrightarrow> CONCURRENCY (Some v) = NaN"
  by (simp add: CONCURRENCY_def math_min_def math_max_def)

lemma num_lt_nat_bound:
  "num_lt (Finite (of_nat m)) c \<Longrightarrow> \<not> num_lt (Finite (of_nat k)) c \<Longrightarrow> m < k"
  by (cases c) auto

lemma in_flight_take_snoc:
  assumes "\<forall>n. in_flight (take n ev) \<le> k" and "in_flight (ev @ [e]) \<le> k"
  shows "in_flight (take n (ev @ [e])) \<le> k"
proof (cases "n \<le> length ev")
  case True
  then have "take n (ev @ [e]) = take n ev" by simp
  with assms(1) show ?thesis by simp
next
  case False
  then have "take n (ev @ [e]) = ev @ [e]" by simp
  with assms(2) show ?thesis by simp
qed

lemma launch_while_bounded:
  "\<not> num_lt (Finite (of_nat k)) c \<Longrightarrow> pool_bounded k p \<Longrightarrow> pool_bounded k (launch_while ids c p)"
proof (induction ids c p rule: launch_while.induct)
  case (1 ids c p)
  show ?case
  proof (cases "num_lt (Finite (of_nat (length (inFlight p)))) c \<and> idx p < length ids")
    case True
    let ?p = "p\<lparr>idx := Suc (idx p), inFlight := inFlight p @ [ids ! idx p],
                events := events p @ [Dispatch (ids ! idx p)]\<rparr>"
    from True "1.prems"(1) have lt: "length (inFlight p) < k"
      using num_lt_nat_bound by blast
    have eq: "length (dispatched (events p)) = length (settled (events p)) + length (inFlight p)"
      and al: "\<forall>n. in_flight (take n (events p)) \<le> k"
      using "1.prems"(2) by (simp_all add: pool_bounded_def)
    have "in_flight (events p @ [Dispatch (ids ! idx p)]) \<le> k"
      using eq lt by (simp add: in_flight_def)
    with al have "\<forall>n. in_flight (take n (events p @ [Dispatch (ids ! idx p)])) \<le> k"
      using in_flight_take_snoc by blast
    then have "pool_bounded k ?p"
      using eq lt by (simp add: pool_bounded_def)
    with "1.IH" [OF True "1.prems"(1)] show ?thesis
      by (simp add: launch_while_step [OF True])
  next
    case False
    with "1.prems" show ?thesis by (simp add: launch_while_stop)
  qed
qed

lemma launch_bounded:
  "\<not> num_lt (Finite (of_nat k)) c \<Longrightarrow> pool_bounded k p \<Longrightarrow> pool_bounded k (launch ids c p)"
  by (auto simp: launch_def launch_while_bounded) (simp add: pool_bounded_def)

lemma settle_bounded:
  assumes "pool_bounded k p" and "j < length (inFlight p)"
  shows "pool_bounded k (settle w j p)"
proof -
  let ?e = "Settle (inFlight p ! j)"
  let ?F = "take j (inFlight p) @ drop (Suc j) (inFlight p)"
  have eq: "length (dispatched (events p)) = length (settled (events p)) + length (inFlight p)"
    and le: "length (inFlight p) \<le> k"
    and al: "\<forall>n. in_flight (take n (events p)) \<le> k"
    using assms(1) by (simp_all add: pool_bounded_def)
  have len: "length ?F + 1 = length (inFlight p)"
    using assms(2) by simp
  have 1: "length (dispatched (events p @ [?e])) = length (settled (events p @ [?e])) + length ?F"
    using eq len by simp
  have 2: "length ?F \<le> k"
    using le len by linarith
  have "in_flight (events p @ [?e]) \<le> k"
    using eq le by (simp add: in_flight_def)
  with al have 3: "\<forall>n. in_flight (take n (events p @ [?e])) \<le> k"
    using in_flight_take_snoc by blast
  have "events (settle w j p) = events p @ [?e]" "inFlight (settle w j p) = ?F"
    by (simp_all add: settle_def)
  with 1 2 3 show ?thesis
    unfolding pool_bounded_def by (simp only:) simp
qed

lemma pool_loop_bounded:
  "\<not> num_lt (Finite (of_nat k)) c \<Longrightarrow> pool_bounded k p \<Longrightarrow> pool_loop w ids c p = Some q
   \<Longrightarrow> pool_bounded k q"
proof (induction w ids c p rule: pool_loop.induct)
  case (1 w ids c p)
  show ?case
  proof (cases "resolved p")
    case True
    with "1.prems" show ?thesis by (simp add: pool_loop.simps)
  next
    case False
    show ?thesis
    proof (cases "inFlight p = []")
      case True
      with False "1.prems" show ?thesis by (simp add: pool_loop.simps)
    next
      case ne: False
      let ?j = "pick w (inFlight p) mod length (inFlight p)"
      let ?p = "launch ids c (settle w ?j p)"
      have j: "?j < length (inFlight p)" using ne by simp
      have "pool_bounded k ?p"
        using "1.prems"(1,2) j by (intro launch_bounded settle_bounded)
      moreover have "pool_loop w ids c ?p = Some q"
        using "1.prems"(3) False ne by (subst (asm) pool_loop.simps) simp
      ultimately show ?thesis
        using "1.IH" [OF False ne "1.prems"(1)] by blast
    qed
  qed
qed

text \<open>
  With a concurrency that is a number, the requests in flight never exceed it rounded up
  to a natural number: never more than \<open>k\<close> for every natural \<open>k\<close> that is not below it.
\<close>

lemma poolRun_in_flight_bounded:
  assumes "pool_final w ids c = Some q" and "\<not> num_lt (Finite (of_nat k)) c"
  shows "in_flight (take n (events q)) \<le> k"
proof -
  have "pool_bounded k (pool_init :: 'a pool)"
    by (simp add: pool_bounded_def pool_init_def in_flight_def)
  then have "pool_bounded k (launch ids c pool_init)"
    using assms(2) by (intro launch_bounded)
  then have "pool_bounded k q"
    using assms unfolding pool_final_def by (intro pool_loop_bounded [of k c _ w ids q])
  then show ?thesis by (simp add: pool_bounded_def)
qed

lemma poolRun_concurrency_4:
  assumes "pool_final w ids (CONCURRENCY (Some (js ''4''))) = Some q"
  shows "in_flight (take n (events q)) \<le> 4"
proof -
  have c: "CONCURRENCY (Some (js ''4'')) = Finite (of_nat 4)"
    by (simp add: CONCURRENCY_def math_min_def math_max_def js_def number_defs char_defs Let_def)
  have "\<not> num_lt (Finite (of_nat 4)) (CONCURRENCY (Some (js ''4'')))"
    unfolding c by simp
  from poolRun_in_flight_bounded [OF assms this] show ?thesis by simp
qed

text \<open>With a concurrency that is NaN no request is ever sent and \<open>poolRun\<close> never resolves.\<close>

lemma poolRun_NaN: "ids \<noteq> [] \<Longrightarrow> poolRun w ids NaN = None"
proof -
  assume ne: "ids \<noteq> []"
  have "launch_while ids NaN pool_init = (pool_init :: 'a pool)"
    by (rule launch_while_stop) simp
  with ne have "launch ids NaN pool_init = (pool_init :: 'a pool)"
    by (simp add: launch_def pool_init_def)
  then show ?thesis
    by (simp add: poolRun_def pool_final_def pool_loop.simps pool_init_def)
qed

text \<open>
  C5. For the command line \<open>--concurrency 4\<close> (a space, not \<open>=\<close>) the flag has the
  value \<open>"true"\<close>; for it, as for \<open>--concurrency=abc\<close>, \<open>CONCURRENCY\<close> is NaN, which is not
  in the range from 1 to 8; with it the pool sends nothing and never resolves, and the run
  of the example waits for ever on its first batch. For \<open>--concurrency=2.5\<close> the value is 2.5 and three
  requests are in flight at once.
\<close>

theorem CONCURRENCY_non_numeric_flag:
  "flags_get [js ''--concurrency'', js ''4''] (js ''concurrency'') = Some (js ''true'')
   \<and> CONCURRENCY (Some (js ''abc'')) = NaN
   \<and> CONCURRENCY (Some (js ''true'')) = NaN
   \<and> poolRun example_world [1, 2, 3] (CONCURRENCY (Some (js ''abc''))) = None
   \<and> harvest_run example_world
        (example_config\<lparr>concurrency := CONCURRENCY (Some (js ''abc''))\<rparr>) None
       = (NeverSettles,
          \<lparr>processed = 0, found = 0, errors = 0, cursor = None, cursor_file = None,
             trace = [Query None], batches = []\<rparr>)
   \<and> CONCURRENCY (Some (js ''2.5'')) = Finite (5 / 2)
   \<and> map_option (\<lambda>q. in_flight (take 3 (events q)))
        (pool_final example_world [1, 2, 3, 4] (CONCURRENCY (Some (js ''2.5'')))) = Some 3"
proof -
  have a: "CONCURRENCY (Some (js ''abc'')) = NaN"
    by (simp add: CONCURRENCY_def math_min_def math_max_def js_def number_defs char_defs Let_def)
  have b: "CONCURRENCY (Some (js ''true'')) = NaN"
    by (simp add: CONCURRENCY_def math_min_def math_max_def js_def number_defs char_defs Let_def)
  have c: "poolRun example_world [1, 2, 3] NaN = None"
    by (rule poolRun_NaN) simp
  have "harvest_run example_world
          \<lparr>limit = Finite 0, batch = Finite 50, concurrency = NaN, dry_run = False,
             start_after = None, only_missing_ebay = False\<rparr> None
        = (NeverSettles,
           \<lparr>processed = 0, found = 0, errors = 0, cursor = None, cursor_file = None,
              trace = [Query None], batches = []\<rparr>)"
    by code_simp
  then have d: "harvest_run example_world (example_config\<lparr>concurrency := NaN\<rparr>) None
        = (NeverSettles,
           \<lparr>processed = 0, found = 0, errors = 0, cursor = None, cursor_file = None,
              trace = [Query None], batches = []\<rparr>)"
    by (simp add: example_config_eq)
  have e: "CONCURRENCY (Some (js ''2.5'')) = Finite (5 / 2)"
    by (simp add: CONCURRENCY_def math_min_def math_max_def js_def number_defs char_defs Let_def)
  have f: "map_option (\<lambda>q. in_flight (take 3 (events q)))
        (pool_final example_world [1, 2, 3, 4] (Finite (5 / 2))) = Some 3"
    by code_simp
  have g: "flags_get [js ''--concurrency'', js ''4''] (js ''concurrency'') = Some (js ''true'')"
    by (simp add: flags_get_def parse_flag_def js_def)
  from a b c d e f g show ?thesis by simp
qed

section \<open>Properties of the price snapshot\<close>

lemma snapshot_parseMoneyToNumber_eq: "snapshot_parseMoneyToNumber raw = parseMoneyToNumber raw"
  by (cases raw) (auto simp: snapshot_parseMoneyToNumber_def parseMoneyToNumber_def Let_def trim_def)

lemma fold_append_history:
  "fold (append_history t) pss d =
     (case t of
        TcgplayerHistory \<Rightarrow>
          d\<lparr>tcg_card_prices_tcgplayer_history := tcg_card_prices_tcgplayer_history d @ pss\<rparr>
      | CardmarketHistory \<Rightarrow>
          d\<lparr>tcg_card_prices_cardmarket_history := tcg_card_prices_cardmarket_history d @ pss\<rparr>
      | YgoHistory \<Rightarrow>
          d\<lparr>ygo_card_prices_history := ygo_card_prices_history d @ pss\<rparr>)"
  by (induction pss arbitrary: d) (simp_all add: append_history_def split: history_table.splits)

lemma insert_rows_accepted:
  "list_all (accepts t) pss \<Longrightarrow> working c = Some d
   \<Longrightarrow> insert_rows accepts t pss n c
         = Inr (n + length pss, c\<lparr>working := Some (fold (append_history t) pss d)\<rparr>)"
proof (induction pss arbitrary: n c d)
  case Nil
  then show ?case by simp
next
  case (Cons ps pss)
  let ?c = "c\<lparr>working := Some (append_history t ps d)\<rparr>"
  have q: "query_insert accepts t ps c = Inr ?c"
    using Cons.prems by (simp add: query_insert_def put_view_def view_def)
  have "insert_rows accepts t pss (Suc n) ?c
          = Inr (Suc n + length pss, ?c\<lparr>working := Some (fold (append_history t) pss (append_history t ps d))\<rparr>)"
    using Cons.prems by (intro Cons.IH) simp_all
  with q show ?case by simp
qed

lemma insert_rows_refused:
  "\<not> list_all (accepts t) pss \<Longrightarrow> working c = Some d
   \<Longrightarrow> \<exists>e c'. insert_rows accepts t pss n c = Inl (e, c') \<and> committed c' = committed c"
proof (induction pss arbitrary: n c d)
  case Nil
  then show ?case by simp
next
  case (Cons ps pss)
  show ?case
  proof (cases "accepts t ps")
    case False
    then show ?thesis by (simp add: query_insert_def)
  next
    case True
    let ?c = "c\<lparr>working := Some (append_history t ps d)\<rparr>"
    have q: "query_insert accepts t ps c = Inr ?c"
      using True Cons.prems by (simp add: query_insert_def put_view_def view_def)
    from True Cons.prems have "\<not> list_all (accepts t) pss" by simp
    from Cons.IH [where c="?c" and d="append_history t ps d" and n="Suc n"] this
    obtain e c' where "insert_rows accepts t pss (Suc n) ?c = Inl (e, c')" "committed c' = committed ?c"
      by auto
    with q show ?thesis by simp
  qed
qed

text \<open>
  C3. A run with a database URL opens one transaction for the inserts of the three
  tables. If the database accepts every insert, the transaction is committed: each history
  table holds its former rows followed by one row for each row of its current-price table,
  the three counts are reported and the exit code is 0. If it refuses one insert, whichever
  it is, the transaction is rolled back: the database is exactly as before the run, no count
  is reported and the exit code is 1.
\<close>

theorem snapshot_all_or_nothing:
  assumes "url \<noteq> None" and "url \<noteq> Some []"
  shows "(list_all (accepts TcgplayerHistory) (map (tcgplayer_params toISO) (tcg_card_prices_tcgplayer d))
          \<and> list_all (accepts CardmarketHistory) (map (cardmarket_params toISO) (tcg_card_prices_cardmarket d))
          \<and> list_all (accepts YgoHistory) (map ygo_params (ygo_card_prices d))
        \<longrightarrow> main accepts toISO url d =
              \<lparr>exitCode = 0,
               reported = Some (length (tcg_card_prices_tcgplayer d),
                                length (tcg_card_prices_cardmarket d),
                                length (ygo_card_prices d)),
               database = d\<lparr>tcg_card_prices_tcgplayer_history :=
                              tcg_card_prices_tcgplayer_history d
                                @ map (tcgplayer_params toISO) (tcg_card_prices_tcgplayer d),
                            tcg_card_prices_cardmarket_history :=
                              tcg_card_prices_cardmarket_history d
                                @ map (cardmarket_params toISO) (tcg_card_prices_cardmarket d),
                            ygo_card_prices_history :=
                              ygo_card_prices_history d @ map ygo_params (ygo_card_prices d)\<rparr>\<rparr>)
    \<and> (\<not> (list_all (accepts TcgplayerHistory) (map (tcgplayer_params toISO) (tcg_card_prices_tcgplayer d))
          \<and> list_all (accepts CardmarketHistory) (map (cardmarket_params toISO) (tcg_card_prices_cardmarket d))
          \<and> list_all (accepts YgoHistory) (map ygo_params (ygo_card_prices d)))
        \<longrightarrow> main accepts toISO url d = \<lparr>exitCode = 1, reported = None, database = d\<rparr>)"
proof -
  let ?A = "map (tcgplayer_params toISO) (tcg_card_prices_tcgplayer d)"
  let ?B = "map (cardmarket_params toISO) (tcg_card_prices_cardmarket d)"
  let ?C = "map ygo_params (ygo_card_prices d)"
  let ?c1 = "\<lparr>committed = d, working = Some d\<rparr>"
  let ?d2 = "fold (append_history TcgplayerHistory) ?A d"
  let ?c2 = "?c1\<lparr>working := Some ?d2\<rparr>"
  let ?d3 = "fold (append_history CardmarketHistory) ?B ?d2"
  let ?c3 = "?c2\<lparr>working := Some ?d3\<rparr>"
  let ?d4 = "fold (append_history YgoHistory) ?C ?d3"
  let ?c4 = "?c3\<lparr>working := Some ?d4\<rparr>"
  have b: "query_begin \<lparr>committed = d, working = None\<rparr> = ?c1"
    by (simp add: query_begin_def)
  have v2: "tcg_card_prices_cardmarket ?d2 = tcg_card_prices_cardmarket d"
    by (simp add: fold_append_history)
  have v3: "ygo_card_prices ?d3 = ygo_card_prices d"
    by (simp add: fold_append_history)
  have sA: "snapshotPokemonTcgplayer accepts toISO ?c1 = insert_rows accepts TcgplayerHistory ?A 0 ?c1"
    by (simp add: snapshotPokemonTcgplayer_def view_def)
  have sB: "snapshotPokemonCardmarket accepts toISO ?c2 = insert_rows accepts CardmarketHistory ?B 0 ?c2"
    by (simp add: snapshotPokemonCardmarket_def view_def v2)
  have sC: "snapshotYgo accepts ?c3 = insert_rows accepts YgoHistory ?C 0 ?c3"
    by (simp add: snapshotYgo_def view_def v3)
  have okA: "insert_rows accepts TcgplayerHistory ?A 0 ?c1 = Inr (length ?A, ?c2)"
    if "list_all (accepts TcgplayerHistory) ?A"
    using that insert_rows_accepted [where accepts=accepts and t=TcgplayerHistory and pss="?A" and c="?c1" and d=d and n=0] by simp
  have okB: "insert_rows accepts CardmarketHistory ?B 0 ?c2 = Inr (length ?B, ?c3)"
    if "list_all (accepts CardmarketHistory) ?B"
    using that insert_rows_accepted [where accepts=accepts and t=CardmarketHistory and pss="?B" and c="?c2" and d="?d2" and n=0] by simp
  have okC: "insert_rows accepts YgoHistory ?C 0 ?c3 = Inr (length ?C, ?c4)"
    if "list_all (accepts YgoHistory) ?C"
    using that insert_rows_accepted [where accepts=accepts and t=YgoHistory and pss="?C" and c="?c3" and d="?d3" and n=0] by simp
  have koA: "\<exists>e c'. insert_rows accepts TcgplayerHistory ?A 0 ?c1 = Inl (e, c') \<and> committed c' = d"
    if "\<not> list_all (accepts TcgplayerHistory) ?A"
    using that insert_rows_refused [where accepts=accepts and t=TcgplayerHistory and pss="?A" and c="?c1" and d=d and n=0] by simp
  have koB: "\<exists>e c'. insert_rows accepts CardmarketHistory ?B 0 ?c2 = Inl (e, c') \<and> committed c' = d"
    if "\<not> list_all (accepts CardmarketHistory) ?B"
    using that insert_rows_refused [where accepts=accepts and t=CardmarketHistory and pss="?B" and c="?c2" and d="?d2" and n=0] by simp
  have koC: "\<exists>e c'. insert_rows accepts YgoHistory ?C 0 ?c3 = Inl (e, c') \<and> committed c' = d"
    if "\<not> list_all (accepts YgoHistory) ?C"
    using that insert_rows_refused [where accepts=accepts and t=YgoHistory and pss="?C" and c="?c3" and d="?d3" and n=0] by simp
  have d4: "?d4 = d\<lparr>tcg_card_prices_tcgplayer_history := tcg_card_prices_tcgplayer_history d @ ?A,
                     tcg_card_prices_cardmarket_history := tcg_card_prices_cardmarket_history d @ ?B,
                     ygo_card_prices_history := ygo_card_prices_history d @ ?C\<rparr>"
    by (simp add: fold_append_history)
  have good: "main accepts toISO url d =
      \<lparr>exitCode = 0, reported = Some (length (tcg_card_prices_tcgplayer d),
                                length (tcg_card_prices_cardmarket d),
                                length (ygo_card_prices d)),
       database = d\<lparr>tcg_card_prices_tcgplayer_history := tcg_card_prices_tcgplayer_history d @ ?A,
                     tcg_card_prices_cardmarket_history := tcg_card_prices_cardmarket_history d @ ?B,
                     ygo_card_prices_history := ygo_card_prices_history d @ ?C\<rparr>\<rparr>"
    if a: "list_all (accepts TcgplayerHistory) ?A" "list_all (accepts CardmarketHistory) ?B"
      "list_all (accepts YgoHistory) ?C"
  proof -
    have "try_body accepts toISO \<lparr>committed = d, working = None\<rparr>
            = Inr ((length ?A, length ?B, length ?C), query_commit ?c4)"
      unfolding try_body_def Let_def b sA okA [OF a(1)]
      by (simp only: sum.case prod.case sB okB [OF a(2)] sC okC [OF a(3)])
    moreover have "committed (query_rollback (query_commit ?c4)) = ?d4"
      by (simp add: query_commit_def query_rollback_def)
    ultimately show ?thesis
      using assms by (simp add: main_def d4 del: fold_simps)
  qed
  have bad: "main accepts toISO url d = \<lparr>exitCode = 1, reported = None, database = d\<rparr>"
    if n: "\<not> (list_all (accepts TcgplayerHistory) ?A \<and> list_all (accepts CardmarketHistory) ?B
              \<and> list_all (accepts YgoHistory) ?C)"
  proof -
    have "\<exists>e c'. try_body accepts toISO \<lparr>committed = d, working = None\<rparr> = Inl (e, c')
                   \<and> committed c' = d"
    proof (cases "list_all (accepts TcgplayerHistory) ?A")
      case False
      from koA [OF False] show ?thesis
        unfolding try_body_def Let_def b sA by auto
    next
      case A: True
      show ?thesis
      proof (cases "list_all (accepts CardmarketHistory) ?B")
        case False
        from koB [OF False] show ?thesis
          unfolding try_body_def Let_def b sA okA [OF A]
          by (simp only: sum.case prod.case sB) auto
      next
        case B: True
        with A n have C: "\<not> list_all (accepts YgoHistory) ?C" by simp
        from koC [OF C] show ?thesis
          unfolding try_body_def Let_def b sA okA [OF A]
          by (simp only: sum.case prod.case sB okB [OF B] sC) auto
      qed
    qed
    then obtain e c' where "try_body accepts toISO \<lparr>committed = d, working = None\<rparr> = Inl (e, c')"
      "committed c' = d" by blast
    then show ?thesis
      using assms by (simp add: main_def query_rollback_def)
  qed
  from good bad show ?thesis by blast
qed

theorem snapshot_all_or_nothing_witness:
  "Some (js ''postgres://db'') \<noteq> None \<and> Some (js ''postgres://db'') \<noteq> Some []
   \<and> main (\<lambda>t ps. True) (\<lambda>s. None) (Some (js ''postgres://db'')) example_db
       = \<lparr>exitCode = 0, reported = Some (1, 0, 2),
          database = example_db
            \<lparr>tcg_card_prices_tcgplayer_history :=
               [[Text (js ''E1''), Null, Text (js ''USD''), Num (Finite (7 / 2)), Null, Null, Null, Null]],
             tcg_card_prices_cardmarket_history := [],
             ygo_card_prices_history :=
               [[Text (js ''Y0''), Null, Null, Null, Null, Null],
                [Text (js ''Y1''), Null, Null, Num (Finite 1200), Null, Null],
                [Text (js ''Y2''), Null, Null, Null, Null, Null]]\<rparr>\<rparr>
   \<and> main (\<lambda>t ps. ps \<noteq> [Text (js ''Y2''), Null, Null, Null, Null, Null]) (\<lambda>s. None)
        (Some (js ''postgres://db'')) example_db
       = \<lparr>exitCode = 1, reported = None, database = example_db\<rparr>"
proof -
  let ?url = "Some (js ''postgres://db'')"
  let ?all = "\<lambda>(t :: history_table) (ps :: sqlval list). True"
  let ?but = "\<lambda>(t :: history_table) ps. ps \<noteq> [Text (js ''Y2''), Null, Null, Null, Null, Null]"
  have u: "?url \<noteq> None" "?url \<noteq> Some []" by (simp_all add: js_def)
  have A: "map (tcgplayer_params (\<lambda>s. None)) (tcg_card_prices_tcgplayer example_db)
             = [[Text (js ''E1''), Null, Text (js ''USD''), Num (Finite (7 / 2)), Null, Null, Null, Null]]"
    by (simp add: example_db_def tcgplayer_params_def text_param_def money_param_def parseTs_def
        snapshot_parseMoneyToNumber_def js_def isStripped_def char_defs number_defs Let_def)
  have B: "map (cardmarket_params (\<lambda>s. None)) (tcg_card_prices_cardmarket example_db) = []"
    by (simp add: example_db_def)
  have C: "map ygo_params (ygo_card_prices example_db)
             = [[Text (js ''Y1''), Null, Null, Num (Finite 1200), Null, Null],
                [Text (js ''Y2''), Null, Null, Null, Null, Null]]"
    by (simp add: example_db_def ygo_params_def text_param_def money_param_def
        snapshot_parseMoneyToNumber_def js_def isStripped_def char_defs number_defs Let_def)
  have h: "tcg_card_prices_tcgplayer_history example_db = []"
    "tcg_card_prices_cardmarket_history example_db = []"
    "ygo_card_prices_history example_db = [[Text (js ''Y0''), Null, Null, Null, Null, Null]]"
    "length (tcg_card_prices_tcgplayer example_db) = 1"
    "length (tcg_card_prices_cardmarket example_db) = 0"
    "length (ygo_card_prices example_db) = 2"
    by (simp_all add: example_db_def)
  have 1: "main ?all (\<lambda>s. None) ?url example_db
       = \<lparr>exitCode = 0, reported = Some (1, 0, 2),
          database = example_db
            \<lparr>tcg_card_prices_tcgplayer_history :=
               [[Text (js ''E1''), Null, Text (js ''USD''), Num (Finite (7 / 2)), Null, Null, Null, Null]],
             tcg_card_prices_cardmarket_history := [],
             ygo_card_prices_history :=
               [[Text (js ''Y0''), Null, Null, Null, Null, Null],
                [Text (js ''Y1''), Null, Null, Num (Finite 1200), Null, Null],
                [Text (js ''Y2''), Null, Null, Null, Null, Null]]\<rparr>\<rparr>"
    using snapshot_all_or_nothing [OF u, of ?all "\<lambda>s. None" example_db]
    unfolding A B C h by simp
  have 2: "main ?but (\<lambda>s. None) ?url example_db = \<lparr>exitCode = 1, reported = None, database = example_db\<rparr>"
    using snapshot_all_or_nothing [OF u, of ?but "\<lambda>s. None" example_db]
    unfolding A B C h by simp
  from u 1 2 show ?thesis by blast
qed

end
